theory Spec2Isabelle
  imports Main "HOL-Library.Word"
begin

unbundle bit_operations_syntax

text \<open>
  The taxonomy of unikmer (\<open>taxonomy.go\<close>): the loaders of the nodes, merged and deleted
  files, the rank lookup and the lowest common ancestor with its cache. The first part
  models the code, function by function; the second proves what the walks of \<open>LCA\<close>
  compute on a well-formed store and what the loaders build; the third states the
  properties.
\<close>

section \<open>The taxonomy store (\<open>taxonomy.go\<close>)\<close>

type_synonym u8 = "8 word"
type_synonym u32 = "32 word"
type_synonym u64 = "64 word"

text \<open>
  The struct \<open>Taxonomy\<close>. Go maps are partial functions; the two maps whose values carry
  no information (\<open>DelNodes\<close>, \<open>Ranks\<close>) are the sets of their keys. \<open>lcaCache\<close> is the
  \<open>sync.Map\<close>, read and written here by one caller at a time.
\<close>

record Taxonomy =
  filename :: string  \<comment> \<open>the field \<open>file\<close>, a keyword of Isabelle\<close>
  rootNode :: u32
  Nodes :: "u32 \<rightharpoonup> u32"
  DelNodes :: "u32 set"
  MergeNodes :: "u32 \<rightharpoonup> u32"
  taxid2rankid :: "u32 \<rightharpoonup> u8"
  ranks :: "string list"
  Ranks :: "string set"
  hasRanks :: bool
  hasDelNodes :: bool
  hasMergeNodes :: bool
  cacheLCA :: bool
  lcaCache :: "u64 \<rightharpoonup> u32"
  maxTaxid :: u32

text \<open>The zero value of the struct: nil maps, empty cache, all flags false.\<close>

definition zero_Taxonomy :: Taxonomy where
  "zero_Taxonomy =
     \<lparr>filename = [], rootNode = 0, Nodes = Map.empty, DelNodes = {}, MergeNodes = Map.empty,
      taxid2rankid = Map.empty, ranks = [], Ranks = {}, hasRanks = False,
      hasDelNodes = False, hasMergeNodes = False, cacheLCA = False, lcaCache = Map.empty,
      maxTaxid = 0\<rparr>"

subsection \<open>Errors and panics\<close>

text \<open>
  The three error values of the package, the errors of the callees (\<open>strconv.Atoi\<close> on a
  token, the reader on a file that does not open) and the wrapping
  \<open>fmt.Errorf("unikmer: %s", err)\<close>. A function fails by returning an error or by
  panicking.
\<close>

datatype num_error = ErrSyntax | ErrRange

datatype error =
    ErrIllegalColumnIndex
  | ErrRankNotLoaded
  | ErrTooManyRanks
  | OpenError string
  | NumError string num_error
  | Errorf error

datatype panic = PanicValue error | IndexOutOfRange

datatype failure = Failed error | Panicked panic

subsection \<open>The library functions the parsers call\<close>

text \<open>
  \<open>strings.TrimSpace\<close>, \<open>strings.Split\<close> with a one-byte separator and \<open>strconv.Atoi\<close>
  on 64-bit \<open>int\<close>, over byte strings.

  \<open>TrimSpace\<close> removes the leading and the trailing white space of \<open>unicode.IsSpace\<close>: the
  six ASCII characters of \<open>isSpace\<close>, and the UTF-8 encodings of U+0085 and U+00A0 (two
  bytes, \<open>space2\<close>) and of U+1680, U+2000 to U+200A, U+2028, U+2029, U+202F, U+205F and
  U+3000 (three bytes, \<open>space3\<close>). \<open>trim_runes\<close> strips such characters from the front of
  a string; the trailing ones are stripped from the reversed string, with the bytes of
  a character in reverse order.
\<close>

definition isSpace :: "char \<Rightarrow> bool" where
  "isSpace c = (c = CHR 0x09 \<or> c = CHR 0x0A \<or> c = CHR 0x0B \<or> c = CHR 0x0C
     \<or> c = CHR 0x0D \<or> c = CHR 0x20)"

definition space2 :: "char \<Rightarrow> char \<Rightarrow> bool" where
  "space2 a b = (a = CHR 0xC2 \<and> (b = CHR 0x85 \<or> b = CHR 0xA0))"

definition space3 :: "char \<Rightarrow> char \<Rightarrow> char \<Rightarrow> bool" where
  "space3 a b c =
     (a = CHR 0xE1 \<and> b = CHR 0x9A \<and> c = CHR 0x80
      \<or> a = CHR 0xE2 \<and> b = CHR 0x80
          \<and> (0x80 \<le> (of_char c :: nat) \<and> (of_char c :: nat) \<le> 0x8A
              \<or> c = CHR 0xA8 \<or> c = CHR 0xA9 \<or> c = CHR 0xAF)
      \<or> a = CHR 0xE2 \<and> b = CHR 0x81 \<and> c = CHR 0x9F
      \<or> a = CHR 0xE3 \<and> b = CHR 0x80 \<and> c = CHR 0x80)"

fun trim_runes ::
  "(char \<Rightarrow> char \<Rightarrow> bool) \<Rightarrow> (char \<Rightarrow> char \<Rightarrow> char \<Rightarrow> bool) \<Rightarrow> string \<Rightarrow> string" where
  "trim_runes two three (a # b # c # s) =
     (if isSpace a then trim_runes two three (b # c # s)
      else if two a b then trim_runes two three (c # s)
      else if three a b c then trim_runes two three s
      else a # b # c # s)"
| "trim_runes two three [a, b] =
     (if isSpace a then trim_runes two three [b]
      else if two a b then []
      else [a, b])"
| "trim_runes two three [a] = (if isSpace a then [] else [a])"
| "trim_runes two three [] = []"

definition TrimSpace :: "string \<Rightarrow> string" where
  "TrimSpace s =
     rev (trim_runes (\<lambda>a b. space2 b a) (\<lambda>a b c. space3 c b a)
            (rev (trim_runes space2 space3 s)))"

fun Split :: "string \<Rightarrow> char \<Rightarrow> string list" where
  "Split [] sep = [[]]"
| "Split (c # cs) sep =
     (if c = sep then [] # Split cs sep
      else (case Split cs sep of [] \<Rightarrow> [[c]] | item # items \<Rightarrow> (c # item) # items))"

text \<open>
  \<open>strconv.Atoi\<close> reads an optional sign and then the decimal digits as an unsigned
  64-bit number (\<open>digits\<close>, the loop of \<open>ParseUint\<close>): a byte that is no digit is a syntax
  error, and a digit that takes the number beyond \<open>2 ^ 64 - 1\<close> a range error, whichever
  comes first. The signed number must then lie in the range of \<open>int\<close>.
\<close>

fun digits :: "string \<Rightarrow> nat \<Rightarrow> num_error + nat" where
  "digits [] n = Inr n"
| "digits (c # cs) n =
     (if \<not> (48 \<le> (of_char c :: nat) \<and> (of_char c :: nat) \<le> 57) then Inl ErrSyntax
      else if (2 ^ 64 - 1) div 10 + 1 \<le> n then Inl ErrRange
      else if 2 ^ 64 - 1 < 10 * n + (of_char c - 48) then Inl ErrRange
      else digits cs (10 * n + (of_char c - 48)))"

definition Atoi :: "string \<Rightarrow> error + int" where
  "Atoi s =
     (let neg = (case s of c # _ \<Rightarrow> c = CHR ''-'' | [] \<Rightarrow> False);
          body = (case s of c # cs \<Rightarrow> if c = CHR ''+'' \<or> c = CHR ''-'' then cs else s
                  | [] \<Rightarrow> [])
      in if body = [] then Inl (NumError s ErrSyntax)
         else (case digits body 0 of
                 Inl e \<Rightarrow> Inl (NumError s e)
               | Inr n \<Rightarrow>
                   if \<not> neg \<and> 2 ^ 63 \<le> n then Inl (NumError s ErrRange)
                   else if neg \<and> 2 ^ 63 < n then Inl (NumError s ErrRange)
                   else Inr (if neg then - int n else int n)))"

text \<open>Indexing a slice panics outside its range.\<close>

definition index :: "'a list \<Rightarrow> int \<Rightarrow> panic + 'a" where
  "index xs i = (if 0 \<le> i \<and> i < int (length xs) then Inr (xs ! nat i) else Inl IndexOutOfRange)"

fun minInt :: "int \<Rightarrow> int list \<Rightarrow> int" where
  "minInt a vals = fold (\<lambda>v m. if v < m then v else m) vals a"

subsection \<open>The line parsers\<close>

text \<open>
  A parse function returns \<open>(record, true, nil)\<close>, \<open>(nil, false, nil)\<close> for a line to
  skip, or \<open>(nil, false, err)\<close>; or it panics. The column arguments of the parsers below
  are the ones the closures capture: \<open>minColumns\<close>, and the column indices after their
  decrement.
\<close>

datatype 'a parsed = Parsed 'a | Skipped | Malformed error | Crashed panic

record taxon =
  Taxid :: u32
  Parent :: u32

record ranked_taxon = taxon +
  Rank :: string

definition parse_taxon :: "int \<Rightarrow> int \<Rightarrow> int \<Rightarrow> string \<Rightarrow> taxon parsed" where
  "parse_taxon minColumns childColumn parentColumn line0 =
     (let line = TrimSpace line0 in
      if line = [] then Skipped
      else
        let items = Split line (CHR 0x09) in
        if int (length items) < minColumns then Skipped
        else
          (case index items childColumn of
             Inl p \<Rightarrow> Crashed p
           | Inr f1 \<Rightarrow>
               (case Atoi f1 of
                  Inl e \<Rightarrow> Malformed e
                | Inr child \<Rightarrow>
                    (case index items parentColumn of
                       Inl p \<Rightarrow> Crashed p
                     | Inr f2 \<Rightarrow>
                         (case Atoi f2 of
                            Inl e \<Rightarrow> Malformed e
                          | Inr parent \<Rightarrow>
                              Parsed \<lparr>Taxid = word_of_int child,
                                      Parent = word_of_int parent\<rparr>)))))"

definition parse_ranked_taxon ::
  "int \<Rightarrow> int \<Rightarrow> int \<Rightarrow> int \<Rightarrow> string \<Rightarrow> ranked_taxon parsed" where
  "parse_ranked_taxon minColumns childColumn parentColumn rankColumn line0 =
     (let line = TrimSpace line0 in
      if line = [] then Skipped
      else
        let items = Split line (CHR 0x09) in
        if int (length items) < minColumns then Skipped
        else
          (case index items childColumn of
             Inl p \<Rightarrow> Crashed p
           | Inr f1 \<Rightarrow>
               (case Atoi f1 of
                  Inl e \<Rightarrow> Malformed e
                | Inr child \<Rightarrow>
                    (case index items parentColumn of
                       Inl p \<Rightarrow> Crashed p
                     | Inr f2 \<Rightarrow>
                         (case Atoi f2 of
                            Inl e \<Rightarrow> Malformed e
                          | Inr parent \<Rightarrow>
                              (case index items rankColumn of
                                 Inl p \<Rightarrow> Crashed p
                               | Inr f3 \<Rightarrow>
                                   Parsed \<lparr>Taxid = word_of_int child,
                                           Parent = word_of_int parent,
                                           Rank = f3\<rparr>))))))"

definition parse_merged :: "int \<Rightarrow> int \<Rightarrow> int \<Rightarrow> string \<Rightarrow> (u32 \<times> u32) parsed" where
  "parse_merged minColumns oldColumn newColumn line =
     (let items = Split (TrimSpace line) (CHR 0x09) in
      if int (length items) < minColumns then Skipped
      else
        (case index items oldColumn of
           Inl p \<Rightarrow> Crashed p
         | Inr f1 \<Rightarrow>
             (case Atoi f1 of
                Inl e \<Rightarrow> Malformed e
              | Inr old \<Rightarrow>
                  (case index items newColumn of
                     Inl p \<Rightarrow> Crashed p
                   | Inr f2 \<Rightarrow>
                       (case Atoi f2 of
                          Inl e \<Rightarrow> Malformed e
                        | Inr new \<Rightarrow> Parsed (word_of_int old, word_of_int new))))))"

definition parse_deleted :: "int \<Rightarrow> string \<Rightarrow> u32 parsed" where
  "parse_deleted column line =
     (let items = Split (TrimSpace line) (CHR 0x09) in
      if int (length items) < column then Skipped
      else
        (case index items (column - 1) of
           Inl p \<Rightarrow> Crashed p
         | Inr f1 \<Rightarrow>
             (case Atoi f1 of
                Inl e \<Rightarrow> Malformed e
              | Inr taxid \<Rightarrow> Parsed (word_of_int taxid))))"

subsection \<open>The reader\<close>

text \<open>
  \<open>breader.NewBufferedReader(file, bufferSize, chunkSize, fn)\<close> belongs to another
  package. What the loaders rely on is modelled here, run by one worker: the file opens
  or not; its lines are cut into chunks of \<open>chunkSize\<close> lines; \<open>fn\<close> is applied to the
  lines of a chunk in order, and its records are collected; the first error ends the
  chunk, which carries it, and ends the stream. A panic of \<open>fn\<close> ends the program. The
  file system is a function from paths to the lines of the file, \<open>None\<close> for a file that
  cannot be opened.
\<close>

type_synonym filesystem = "string \<Rightarrow> string list option"

record 'a Chunk =
  Data :: "'a list"
  Err :: "error option"

fun process_lines :: "(string \<Rightarrow> 'a parsed) \<Rightarrow> string list \<Rightarrow> 'a list \<Rightarrow> panic + 'a Chunk" where
  "process_lines fn [] acc = Inr \<lparr>Data = acc, Err = None\<rparr>"
| "process_lines fn (line # lines) acc =
     (case fn line of
        Parsed r \<Rightarrow> process_lines fn lines (acc @ [r])
      | Skipped \<Rightarrow> process_lines fn lines acc
      | Malformed e \<Rightarrow> Inr \<lparr>Data = acc, Err = Some e\<rparr>
      | Crashed p \<Rightarrow> Inl p)"

fun chunks_of :: "nat \<Rightarrow> 'a list \<Rightarrow> 'a list list" where
  "chunks_of n [] = []"
| "chunks_of n (x # xs) =
     (if n = 0 then [] else take n (x # xs) # chunks_of n (drop n (x # xs)))"

fun process_chunks :: "(string \<Rightarrow> 'a parsed) \<Rightarrow> string list list \<Rightarrow> panic + 'a Chunk list" where
  "process_chunks fn [] = Inr []"
| "process_chunks fn (c # cs) =
     (case process_lines fn c [] of
        Inl p \<Rightarrow> Inl p
      | Inr chunk \<Rightarrow>
          (case Err chunk of
             Some e \<Rightarrow> Inr [chunk]
           | None \<Rightarrow>
               (case process_chunks fn cs of
                  Inl p \<Rightarrow> Inl p
                | Inr chunks \<Rightarrow> Inr (chunk # chunks))))"

definition NewBufferedReader ::
  "filesystem \<Rightarrow> string \<Rightarrow> nat \<Rightarrow> nat \<Rightarrow> (string \<Rightarrow> 'a parsed) \<Rightarrow> failure + 'a Chunk list" where
  "NewBufferedReader fs file bufferSize chunkSize fn =
     (case fs file of
        None \<Rightarrow> Inl (Failed (OpenError file))
      | Some lines \<Rightarrow>
          (case process_chunks fn (chunks_of chunkSize lines) of
             Inl p \<Rightarrow> Inl (Panicked p)
           | Inr chunks \<Rightarrow> Inr chunks))"

subsection \<open>NewTaxonomy\<close>

text \<open>
  The body of the inner loop: the locals \<open>nodes\<close>, \<open>root\<close> and \<open>maxTaxid\<close> after one more
  record; and the outer loop over the chunks, which returns at the first chunk that
  carries an error.
\<close>

type_synonym nodes_state = "(u32 \<rightharpoonup> u32) \<times> u32 \<times> u32"

definition add_taxon :: "('a taxon_scheme) \<Rightarrow> nodes_state \<Rightarrow> nodes_state" where
  "add_taxon tax s =
     (case s of (nodes, root, maxTaxid') \<Rightarrow>
        (nodes(Taxid tax \<mapsto> Parent tax),
         (if Taxid tax = Parent tax then Taxid tax else root),
         (if Taxid tax > maxTaxid' then Taxid tax else maxTaxid')))"

fun build_nodes :: "taxon Chunk list \<Rightarrow> nodes_state \<Rightarrow> error + nodes_state" where
  "build_nodes [] s = Inr s"
| "build_nodes (chunk # chunks) s =
     (case Err chunk of
        Some e \<Rightarrow> Inl (Errorf e)
      | None \<Rightarrow> build_nodes chunks (fold add_taxon (Data chunk) s))"

definition NewTaxonomy :: "filesystem \<Rightarrow> string \<Rightarrow> int \<Rightarrow> int \<Rightarrow> failure + Taxonomy" where
  "NewTaxonomy fs file childColumn parentColumn =
     (if childColumn < 1 \<or> parentColumn < 1 then Inl (Failed ErrIllegalColumnIndex)
      else
        let minColumns = minInt childColumn [parentColumn];
            parseFunc = parse_taxon minColumns (childColumn - 1) (parentColumn - 1)
        in
        (case NewBufferedReader fs file 8 100 parseFunc of
           Inl (Failed err) \<Rightarrow> Inl (Failed (Errorf err))
         | Inl (Panicked p) \<Rightarrow> Inl (Panicked p)
         | Inr chunks \<Rightarrow>
             (case build_nodes chunks (Map.empty, 0, 0) of
                Inl err \<Rightarrow> Inl (Failed err)
              | Inr (nodes, root, maxTaxid') \<Rightarrow>
                  Inr (zero_Taxonomy\<lparr>filename := file, Nodes := nodes, rootNode := root,
                        maxTaxid := maxTaxid'\<rparr>))))"

definition MaxTaxid :: "Taxonomy \<Rightarrow> u32" where
  "MaxTaxid t = maxTaxid t"

subsection \<open>NewTaxonomyWithRank\<close>

text \<open>
  The rank locals: \<open>taxid2rankid\<close>, the slice \<open>ranks\<close>, \<open>rank2rankid\<close> and \<open>ranksMap\<close>. A
  record with a new rank appends it, and the loader gives up when the slice has grown
  beyond 255.
\<close>

type_synonym ranks_state = "(u32 \<rightharpoonup> u8) \<times> string list \<times> (string \<rightharpoonup> int) \<times> string set"

definition add_rank :: "ranked_taxon \<Rightarrow> ranks_state \<Rightarrow> error + ranks_state" where
  "add_rank tax s =
     (case s of (taxid2rankid', ranks', rank2rankid, ranksMap) \<Rightarrow>
        (case rank2rankid (Rank tax) of
           Some rankid \<Rightarrow>
             Inr (taxid2rankid'(Taxid tax \<mapsto> word_of_int rankid), ranks', rank2rankid, ranksMap)
         | None \<Rightarrow>
             let ranks' = ranks' @ [Rank tax] in
             if length ranks' > 255 then Inl ErrTooManyRanks
             else
               Inr (taxid2rankid'(Taxid tax \<mapsto> word_of_int (int (length ranks') - 1)),
                    ranks',
                    rank2rankid(Rank tax \<mapsto> int (length ranks') - 1),
                    insert (Rank tax) ranksMap)))"

fun add_ranked_taxa ::
  "ranked_taxon list \<Rightarrow> nodes_state \<times> ranks_state \<Rightarrow> error + (nodes_state \<times> ranks_state)" where
  "add_ranked_taxa [] s = Inr s"
| "add_ranked_taxa (tax # taxa) (ns, rs) =
     (case add_rank tax rs of
        Inl err \<Rightarrow> Inl err
      | Inr rs' \<Rightarrow> add_ranked_taxa taxa (add_taxon tax ns, rs'))"

fun build_ranked ::
  "ranked_taxon Chunk list \<Rightarrow> nodes_state \<times> ranks_state \<Rightarrow> error + (nodes_state \<times> ranks_state)" where
  "build_ranked [] s = Inr s"
| "build_ranked (chunk # chunks) s =
     (case Err chunk of
        Some e \<Rightarrow> Inl (Errorf e)
      | None \<Rightarrow>
          (case add_ranked_taxa (Data chunk) s of
             Inl err \<Rightarrow> Inl err
           | Inr s' \<Rightarrow> build_ranked chunks s'))"

definition NewTaxonomyWithRank ::
  "filesystem \<Rightarrow> string \<Rightarrow> int \<Rightarrow> int \<Rightarrow> int \<Rightarrow> failure + Taxonomy" where
  "NewTaxonomyWithRank fs file childColumn parentColumn rankColumn =
     (if childColumn < 1 \<or> parentColumn < 1 \<or> rankColumn < 1
      then Inl (Failed ErrIllegalColumnIndex)
      else
        let minColumns = minInt childColumn [parentColumn, rankColumn];
            parseFunc = parse_ranked_taxon minColumns (childColumn - 1) (parentColumn - 1)
                          (rankColumn - 1)
        in
        (case NewBufferedReader fs file 8 100 parseFunc of
           Inl (Failed err) \<Rightarrow> Inl (Failed (Errorf err))
         | Inl (Panicked p) \<Rightarrow> Inl (Panicked p)
         | Inr chunks \<Rightarrow>
             (case build_ranked chunks ((Map.empty, 0, 0), (Map.empty, [], Map.empty, {})) of
                Inl err \<Rightarrow> Inl (Failed err)
              | Inr ((nodes, root, maxTaxid'), (taxid2rankid', ranks', rank2rankid, ranksMap)) \<Rightarrow>
                  Inr (zero_Taxonomy\<lparr>filename := file, Nodes := nodes, rootNode := root,
                        maxTaxid := maxTaxid', taxid2rankid := taxid2rankid', ranks := ranks',
                        hasRanks := True, Ranks := ranksMap\<rparr>))))"

subsection \<open>Rank\<close>

definition Taxonomy_Rank :: "Taxonomy \<Rightarrow> u32 \<Rightarrow> failure + string" where
  "Taxonomy_Rank t taxid =
     (if \<not> hasRanks t then Inl (Panicked (PanicValue ErrRankNotLoaded))
      else
        (case taxid2rankid t taxid of
           Some i \<Rightarrow>
             (case index (ranks t) (uint i) of
                Inl p \<Rightarrow> Inl (Panicked p)
              | Inr rank \<Rightarrow> Inr rank)
         | None \<Rightarrow> Inr []))"

subsection \<open>LoadMergedNodes and LoadDeletedNodes\<close>

text \<open>
  Both methods fill a fresh local map \<open>m\<close> from the chunks and assign it to the store
  after the last chunk. They return the error (\<open>None\<close> for \<open>nil\<close>) and the store as the
  call leaves it.
\<close>

fun collect_merged :: "(u32 \<times> u32) Chunk list \<Rightarrow> (u32 \<rightharpoonup> u32) \<Rightarrow> error + (u32 \<rightharpoonup> u32)" where
  "collect_merged [] m = Inr m"
| "collect_merged (chunk # chunks) m =
     (case Err chunk of
        Some e \<Rightarrow> Inl (Errorf e)
      | None \<Rightarrow> collect_merged chunks (fold (\<lambda>p m. m(fst p \<mapsto> snd p)) (Data chunk) m))"

definition LoadMergedNodes ::
  "Taxonomy \<Rightarrow> filesystem \<Rightarrow> string \<Rightarrow> int \<Rightarrow> int \<Rightarrow> failure option \<times> Taxonomy" where
  "LoadMergedNodes t fs file oldColumn newColumn =
     (if oldColumn < 1 \<or> newColumn < 1 then (Some (Failed ErrIllegalColumnIndex), t)
      else
        let minColumns = (if newColumn > oldColumn then newColumn else oldColumn);
            parseFunc = parse_merged minColumns (oldColumn - 1) (newColumn - 1)
        in
        (case NewBufferedReader fs file 3 50 parseFunc of
           Inl (Failed err) \<Rightarrow> (Some (Failed (Errorf err)), t)
         | Inl (Panicked p) \<Rightarrow> (Some (Panicked p), t)
         | Inr chunks \<Rightarrow>
             (case collect_merged chunks Map.empty of
                Inl err \<Rightarrow> (Some (Failed err), t)
              | Inr m \<Rightarrow> (None, t\<lparr>MergeNodes := m, hasMergeNodes := True\<rparr>))))"

fun collect_deleted :: "u32 Chunk list \<Rightarrow> u32 set \<Rightarrow> error + u32 set" where
  "collect_deleted [] m = Inr m"
| "collect_deleted (chunk # chunks) m =
     (case Err chunk of
        Some e \<Rightarrow> Inl (Errorf e)
      | None \<Rightarrow> collect_deleted chunks (fold insert (Data chunk) m))"

definition LoadDeletedNodes ::
  "Taxonomy \<Rightarrow> filesystem \<Rightarrow> string \<Rightarrow> int \<Rightarrow> failure option \<times> Taxonomy" where
  "LoadDeletedNodes t fs file column =
     (if column < 1 then (Some (Failed ErrIllegalColumnIndex), t)
      else
        (case NewBufferedReader fs file 3 50 (parse_deleted column) of
           Inl (Failed err) \<Rightarrow> (Some (Failed (Errorf err)), t)
         | Inl (Panicked p) \<Rightarrow> (Some (Panicked p), t)
         | Inr chunks \<Rightarrow>
             (case collect_deleted chunks {} of
                Inl err \<Rightarrow> (Some (Failed err), t)
              | Inr m \<Rightarrow> (None, t\<lparr>DelNodes := m, hasDelNodes := True\<rparr>))))"

subsection \<open>LCA\<close>

definition pack2uint32 :: "u32 \<Rightarrow> u32 \<Rightarrow> u64" where
  "pack2uint32 a b =
     (if a < b then push_bit 32 (ucast a) OR ucast b
      else push_bit 32 (ucast b) OR ucast a)"

text \<open>
  The head of both loops of \<open>LCA\<close>: look \<open>child\<close> up in \<open>Nodes\<close>; when it is missing and
  merged nodes are loaded, replace it once by its merge target and look that up. The
  result is the (possibly replaced) child with its parent, or \<open>None\<close> where the code
  returns 0.
\<close>

definition resolve :: "Taxonomy \<Rightarrow> u32 \<Rightarrow> (u32 \<times> u32) option" where
  "resolve t child =
     (case Nodes t child of
        Some parent \<Rightarrow> Some (child, parent)
      | None \<Rightarrow>
          (if hasMergeNodes t then
             (case MergeNodes t child of
                Some newTaxid \<Rightarrow>
                  (case Nodes t newTaxid of
                     Some parent \<Rightarrow> Some (newTaxid, parent)
                   | None \<Rightarrow> None)
              | None \<Rightarrow> None)
           else None))"

text \<open>
  The first loop either returns a value (which the caller stores in the cache) or breaks
  at the root with the lineage of \<open>a\<close> as a list and as a set. A walk that never ends is
  \<open>None\<close>.
\<close>

datatype lineage = Return u32 | Lineage "u32 list" "u32 set"

partial_function (option) walkA ::
  "Taxonomy \<Rightarrow> u32 \<Rightarrow> u32 \<Rightarrow> u32 list \<Rightarrow> u32 set \<Rightarrow> lineage option" where
  "walkA t b child lineA mA =
     (case resolve t child of
        None \<Rightarrow> Some (Return 0)
      | Some (child', parent) \<Rightarrow>
          if parent = child' then Some (Lineage (lineA @ [parent]) (insert parent mA))
          else if parent = b then Some (Return b)
          else walkA t b parent (lineA @ [parent]) (insert parent mA))"

text \<open>
  The second loop returns a value (stored in the cache by the caller) or breaks at the
  root, after which \<open>LCA\<close> returns \<open>rootNode\<close> without storing it.
\<close>

datatype ascent = Found u32 | ReachedRoot

partial_function (option) walkB ::
  "Taxonomy \<Rightarrow> u32 \<Rightarrow> u32 set \<Rightarrow> u32 \<Rightarrow> ascent option" where
  "walkB t a mA child =
     (case resolve t child of
        None \<Rightarrow> Some (Found 0)
      | Some (child', parent) \<Rightarrow>
          if parent = child' then Some ReachedRoot
          else if parent = a then Some (Found a)
          else if parent \<in> mA then Some (Found parent)
          else walkB t a mA parent)"

text \<open>
  The two loops in sequence. Every return inside the loops stores its value in the
  cache first; the final \<open>return t.rootNode\<close> does not. The result is the value and
  whether it is stored; \<open>None\<close> when a loop does not end.
\<close>

definition lca_walks :: "Taxonomy \<Rightarrow> u32 \<Rightarrow> u32 \<Rightarrow> (u32 \<times> bool) option" where
  "lca_walks t a b =
     (case walkA t b a [] {} of
        None \<Rightarrow> None
      | Some (Return v) \<Rightarrow> Some (v, True)
      | Some (Lineage lineA mA) \<Rightarrow>
          (case walkB t a mA b of
             None \<Rightarrow> None
           | Some (Found v) \<Rightarrow> Some (v, True)
           | Some ReachedRoot \<Rightarrow> Some (rootNode t, False)))"

definition store_lca :: "Taxonomy \<Rightarrow> u64 \<Rightarrow> u32 \<Rightarrow> Taxonomy" where
  "store_lca t query v =
     (if cacheLCA t then t\<lparr>lcaCache := (lcaCache t)(query \<mapsto> v)\<rparr> else t)"

definition CacheLCA :: "Taxonomy \<Rightarrow> Taxonomy" where
  "CacheLCA t = t\<lparr>cacheLCA := True\<rparr>"

text \<open>
  \<open>LCA\<close> returns its value together with the store, whose cache it may have extended;
  \<open>None\<close> means that the call does not return.
\<close>

definition LCA :: "Taxonomy \<Rightarrow> u32 \<Rightarrow> u32 \<Rightarrow> (u32 \<times> Taxonomy) option" where
  "LCA t a b =
     (if a = 0 \<or> b = 0 then Some (0, t)
      else if a = b then Some (a, t)
      else
        let query = (if cacheLCA t then pack2uint32 a b else 0) in
        (case (if cacheLCA t then lcaCache t query else None) of
           Some tmp \<Rightarrow> Some (tmp, t)
         | None \<Rightarrow>
             (case lca_walks t a b of
                None \<Rightarrow> None
              | Some (v, stored) \<Rightarrow> Some (v, if stored then store_lca t query v else t))))"

text \<open>A sequence of \<open>LCA\<close> calls on one store, each starting from the cache the last left.\<close>

fun LCA_calls :: "Taxonomy \<Rightarrow> (u32 \<times> u32) list \<Rightarrow> Taxonomy option" where
  "LCA_calls t [] = Some t"
| "LCA_calls t ((a, b) # queries) =
     (case LCA t a b of None \<Rightarrow> None | Some (v, t') \<Rightarrow> LCA_calls t' queries)"

subsection \<open>Well-formed stores\<close>

text \<open>
  \<open>path N x ps\<close>: following the parent map \<open>N\<close> from \<open>x\<close> visits \<open>ps\<close> and ends at a
  self-loop. A store is well formed when every key has such a path (so every parent is
  a key and no walk runs in a cycle) and the only self-loop is \<open>rootNode\<close>.
\<close>

inductive path :: "('a \<rightharpoonup> 'a) \<Rightarrow> 'a \<Rightarrow> 'a list \<Rightarrow> bool" for N where
  at_root: "N x = Some x \<Longrightarrow> path N x []"
| above: "N x = Some p \<Longrightarrow> p \<noteq> x \<Longrightarrow> path N p ps \<Longrightarrow> path N x (p # ps)"

definition well_formed :: "Taxonomy \<Rightarrow> bool" where
  "well_formed t \<longleftrightarrow>
     (\<forall>x p. Nodes t x = Some p \<longrightarrow> (\<exists>ps. path (Nodes t) x ps)) \<and>
     (\<forall>r. Nodes t r = Some r \<longrightarrow> r = rootNode t)"

text \<open>
  The value the two walks compute, and a cache that holds nothing else: every entry
  under the key of a pair is the value the walks compute for that pair.
\<close>

definition lca_value :: "Taxonomy \<Rightarrow> u32 \<Rightarrow> u32 \<Rightarrow> u32 option" where
  "lca_value t a b = map_option fst (lca_walks t a b)"

definition cache_sound :: "Taxonomy \<Rightarrow> bool" where
  "cache_sound t \<longleftrightarrow>
     (\<forall>a b v. a \<noteq> 0 \<and> b \<noteq> 0 \<and> a \<noteq> b \<and> lcaCache t (pack2uint32 a b) = Some v
        \<longrightarrow> lca_value t a b = Some v)"

subsection \<open>Example stores\<close>

text \<open>
  The tree \<open>1\<rightarrow>1, 2\<rightarrow>1, 3\<rightarrow>2, 4\<rightarrow>2, 5\<rightarrow>3, 6\<rightarrow>3, 7\<rightarrow>4\<close> with the merged node \<open>99\<rightarrow>5\<close>; and the
  store that \<open>NewTaxonomy\<close> builds from the single line \<open>5 | 9\<close>, whose parent 9 is
  not a key.
\<close>

definition example_tree :: Taxonomy where
  "example_tree =
     zero_Taxonomy\<lparr>rootNode := 1,
       Nodes := [1 \<mapsto> 1, 2 \<mapsto> 1, 3 \<mapsto> 2, 4 \<mapsto> 2, 5 \<mapsto> 3, 6 \<mapsto> 3, 7 \<mapsto> 4],
       MergeNodes := [99 \<mapsto> 5], hasMergeNodes := True, maxTaxid := 7\<rparr>"

definition dangling_line :: string where
  "dangling_line = ''5'' @ [CHR 0x09] @ ''|'' @ [CHR 0x09] @ ''9'' @ [CHR 0x09] @ ''|''"

definition dangling_fs :: filesystem where
  "dangling_fs name = (if name = ''nodes.dmp'' then Some [dangling_line] else None)"

definition dangling_store :: Taxonomy where
  "dangling_store = zero_Taxonomy\<lparr>filename := ''nodes.dmp'', Nodes := [5 \<mapsto> 9], maxTaxid := 5\<rparr>"

subsection \<open>The records of a file\<close>

text \<open>
  What a parse function makes of the lines of a file: the records of the lines it
  accepts, in order; and whether it accepts or skips a line, neither failing nor
  panicking.
\<close>

definition parsed_records :: "(string \<Rightarrow> 'a parsed) \<Rightarrow> string list \<Rightarrow> 'a list" where
  "parsed_records fn lines =
     concat (map (\<lambda>line. case fn line of Parsed r \<Rightarrow> [r] | _ \<Rightarrow> []) lines)"

definition parses :: "(string \<Rightarrow> 'a parsed) \<Rightarrow> string \<Rightarrow> bool" where
  "parses fn line =
     (case fn line of Parsed r \<Rightarrow> True | Skipped \<Rightarrow> True | Malformed e \<Rightarrow> False
      | Crashed p \<Rightarrow> False)"

text \<open>The rank of the last record with a given taxid, and the last target of a merged id.\<close>

definition last_rank :: "ranked_taxon list \<Rightarrow> u32 \<rightharpoonup> string" where
  "last_rank taxa = map_of (rev (map (\<lambda>tax. (Taxid tax, Rank tax)) taxa))"

definition last_target :: "(u32 \<times> u32) list \<Rightarrow> u32 \<rightharpoonup> u32" where
  "last_target pairs = map_of (rev pairs)"

text \<open>
  The rank locals after the records \<open>seen\<close>: the slice \<open>ranks\<close> lists the ranks seen,
  each once, \<open>ranksMap\<close> is its set, \<open>rank2rankid\<close> maps each to its index, and
  \<open>taxid2rankid\<close> maps a taxid to the index of the rank of its last record.
\<close>

definition ranks_inv :: "ranked_taxon list \<Rightarrow> ranks_state \<Rightarrow> bool" where
  "ranks_inv seen s \<longleftrightarrow>
     (case s of (t2r, rks, r2id, rmap) \<Rightarrow>
        distinct rks \<and> set rks = Rank ` set seen \<and> rmap = set rks \<and> length rks \<le> 255
        \<and> (\<forall>name i. r2id name = Some i \<longleftrightarrow> 0 \<le> i \<and> nat i < length rks \<and> rks ! nat i = name)
        \<and> (\<forall>x. map_option (\<lambda>w. rks ! unat w) (t2r x) = last_rank seen x)
        \<and> (\<forall>x w. t2r x = Some w \<longrightarrow> unat w < length rks))"

subsection \<open>Example files\<close>

text \<open>
  A nodes file with one line of two fields, \<open>5 |\<close>; a nodes file with ranks, and one
  whose second line has the token \<open>x\<close> for a taxid; merged files, one with a line that
  does not parse; files of deleted nodes.
\<close>

definition tab_line :: "string list \<Rightarrow> string" where
  "tab_line items = concat (map (\<lambda>item. item @ [CHR 0x09] @ ''|'' @ [CHR 0x09]) items)"

definition example_fs :: filesystem where
  "example_fs name =
     (if name = ''short.dmp'' then Some [''5'' @ [CHR 0x09] @ ''|'']
      else if name = ''nodes.dmp'' then
        Some [tab_line [''1'', ''1'', ''no rank''], tab_line [''2'', ''1'', ''genus''],
              tab_line [''3'', ''2'', ''species''], tab_line [''4'', ''2'', ''species'']]
      else if name = ''badnodes.dmp'' then
        Some [tab_line [''1'', ''1'', ''no rank''], tab_line [''x'', ''1'', ''genus'']]
      else if name = ''merged.dmp'' then Some [tab_line [''10'', ''5'']]
      else if name = ''merged2.dmp'' then Some [tab_line [''20'', ''6'']]
      else if name = ''broken.dmp'' then Some [tab_line [''30'', ''7''], tab_line [''x'', ''8'']]
      else if name = ''delnodes.dmp'' then Some [tab_line [''40'']]
      else if name = ''delnodes2.dmp'' then Some [tab_line [''41'']]
      else None)"

text \<open>
  A nodes file of 256 lines \<open>1 | 1 | r\<close>, \<open>1 | 1 | rr\<close>, ..., each with a rank of its
  own.
\<close>

definition rank_line :: "nat \<Rightarrow> string" where
  "rank_line i = tab_line [''1'', ''1'', replicate (Suc i) (CHR ''r'')]"

definition many_ranks_fs :: filesystem where
  "many_ranks_fs name = (if name = ''nodes.dmp'' then Some (map rank_line [0..<256]) else None)"

text \<open>The store that \<open>NewTaxonomyWithRank\<close> builds from the example nodes file.\<close>

definition example_ranked :: Taxonomy where
  "example_ranked =
     zero_Taxonomy\<lparr>filename := ''nodes.dmp'', rootNode := 1,
       Nodes := [1 \<mapsto> 1, 2 \<mapsto> 1, 3 \<mapsto> 2, 4 \<mapsto> 2],
       maxTaxid := 4,
       taxid2rankid := [1 \<mapsto> 0, 2 \<mapsto> 1, 3 \<mapsto> 2, 4 \<mapsto> 2],
       ranks := [''no rank'', ''genus'', ''species''],
       hasRanks := True,
       Ranks := {''species'', ''genus'', ''no rank''}\<rparr>"

section \<open>The walks of LCA\<close>

subsection \<open>One step of a walk\<close>

lemma walkA_None: "resolve t child = None \<Longrightarrow> walkA t b child l m = Some (Return 0)"
  by (subst walkA.simps) simp

lemma walkA_Some:
  "resolve t child = Some (c', p) \<Longrightarrow>
   walkA t b child l m =
     (if p = c' then Some (Lineage (l @ [p]) (insert p m))
      else if p = b then Some (Return b)
      else walkA t b p (l @ [p]) (insert p m))"
  by (subst walkA.simps) simp

lemma walkB_None: "resolve t child = None \<Longrightarrow> walkB t a mA child = Some (Found 0)"
  by (subst walkB.simps) simp

lemma walkB_Some:
  "resolve t child = Some (c', p) \<Longrightarrow>
   walkB t a mA child =
     (if p = c' then Some ReachedRoot
      else if p = a then Some (Found a)
      else if p \<in> mA then Some (Found p)
      else walkB t a mA p)"
  by (subst walkB.simps) simp

lemma resolve_Nodes: "Nodes t x = Some p \<Longrightarrow> resolve t x = Some (x, p)"
  by (simp add: resolve_def)

lemma resolve_SomeD: "resolve t x = Some (x', p) \<Longrightarrow> Nodes t x' = Some p"
  by (auto simp: resolve_def split: option.splits if_splits)

lemma resolve_NoneD: "resolve t x = None \<Longrightarrow> Nodes t x = None"
  by (auto simp: resolve_def split: option.splits if_splits)

lemma resolve_direct: "resolve t x = Some (x', p) \<Longrightarrow> x \<in> dom (Nodes t) \<Longrightarrow> x' = x"
  by (auto simp: resolve_def split: option.splits if_splits)

lemma walkA_resolve:
  assumes "resolve t c = Some (c', p)"
  shows "walkA t b c l m = walkA t b c' l m"
  by (simp add: walkA_Some [OF assms] walkA_Some [OF resolve_Nodes [OF resolve_SomeD [OF assms]]])

lemma walkB_resolve:
  assumes "resolve t c = Some (c', p)"
  shows "walkB t a mA c = walkB t a mA c'"
  by (simp add: walkB_Some [OF assms] walkB_Some [OF resolve_Nodes [OF resolve_SomeD [OF assms]]])

subsection \<open>The walks depend on the store through its lookups only\<close>

lemma walkA_le:
  assumes "walkA t b c l m = Some y"
  shows "\<forall>t'. resolve t' = resolve t \<longrightarrow> walkA t' b c l m = Some y"
proof (rule walkA.raw_induct [where P = "\<lambda>t b c l m y.
    \<forall>t'. resolve t' = resolve t \<longrightarrow> walkA t' b c l m = Some y", OF _ assms])
  fix f t b child lineA mA y
  assume IH: "\<And>t b child lineA mA y. f t b child lineA mA = Some y \<Longrightarrow>
      \<forall>t'. resolve t' = resolve t \<longrightarrow> walkA t' b child lineA mA = Some y"
  assume step: "(case resolve t child of
        None \<Rightarrow> Some (Return 0)
      | Some (child', parent) \<Rightarrow>
          if parent = child' then Some (Lineage (lineA @ [parent]) (insert parent mA))
          else if parent = b then Some (Return b)
          else f t b parent (lineA @ [parent]) (insert parent mA)) = Some y"
  show "\<forall>t'. resolve t' = resolve t \<longrightarrow> walkA t' b child lineA mA = Some y"
  proof (intro allI impI)
    fix t' assume eq: "resolve t' = resolve t"
    show "walkA t' b child lineA mA = Some y"
    proof (cases "resolve t child")
      case None
      with step eq show ?thesis by (subst walkA.simps) simp
    next
      case (Some cp)
      obtain c' p where cp: "cp = (c', p)" by (cases cp)
      show ?thesis
        using step Some cp eq IH by (subst walkA.simps) (auto split: if_splits)
    qed
  qed
qed

lemma walkA_cong:
  assumes "resolve t' = resolve t"
  shows "walkA t' b c l m = walkA t b c l m"
proof (cases "walkA t b c l m")
  case (Some y)
  then show ?thesis using walkA_le [OF Some] assms by simp
next
  case None
  show ?thesis
  proof (cases "walkA t' b c l m")
    case None' : None
    with None show ?thesis by simp
  next
    case (Some y)
    from walkA_le [OF Some] assms None show ?thesis by simp
  qed
qed

lemma walkB_le:
  assumes "walkB t a mA c = Some y"
  shows "\<forall>t'. resolve t' = resolve t \<longrightarrow> walkB t' a mA c = Some y"
proof (rule walkB.raw_induct [where P = "\<lambda>t a mA c y.
    \<forall>t'. resolve t' = resolve t \<longrightarrow> walkB t' a mA c = Some y", OF _ assms])
  fix f t a mA child y
  assume IH: "\<And>t a mA child y. f t a mA child = Some y \<Longrightarrow>
      \<forall>t'. resolve t' = resolve t \<longrightarrow> walkB t' a mA child = Some y"
  assume step: "(case resolve t child of
        None \<Rightarrow> Some (Found 0)
      | Some (child', parent) \<Rightarrow>
          if parent = child' then Some ReachedRoot
          else if parent = a then Some (Found a)
          else if parent \<in> mA then Some (Found parent)
          else f t a mA parent) = Some y"
  show "\<forall>t'. resolve t' = resolve t \<longrightarrow> walkB t' a mA child = Some y"
  proof (intro allI impI)
    fix t' assume eq: "resolve t' = resolve t"
    show "walkB t' a mA child = Some y"
    proof (cases "resolve t child")
      case None
      with step eq show ?thesis by (subst walkB.simps) simp
    next
      case (Some cp)
      obtain c' p where cp: "cp = (c', p)" by (cases cp)
      show ?thesis
        using step Some cp eq IH by (subst walkB.simps) (auto split: if_splits)
    qed
  qed
qed

lemma walkB_cong:
  assumes "resolve t' = resolve t"
  shows "walkB t' a mA c = walkB t a mA c"
proof (cases "walkB t a mA c")
  case (Some y)
  then show ?thesis using walkB_le [OF Some] assms by simp
next
  case None
  show ?thesis
  proof (cases "walkB t' a mA c")
    case None' : None
    with None show ?thesis by simp
  next
    case (Some y)
    from walkB_le [OF Some] assms None show ?thesis by simp
  qed
qed

lemma lca_value_cong:
  assumes "resolve t' = resolve t" and "rootNode t' = rootNode t"
  shows "lca_value t' a b = lca_value t a b"
  unfolding lca_value_def lca_walks_def walkA_cong [OF assms(1)] walkB_cong [OF assms(1)]
    assms(2) ..

subsection \<open>Paths\<close>

lemma path_det: "path N x ps \<Longrightarrow> path N x qs \<Longrightarrow> ps = qs"
proof (induction arbitrary: qs rule: path.induct)
  case (at_root x)
  then show ?case by (auto elim: path.cases)
next
  case (above x p ps)
  from above.prems above.hyps(1,2) obtain qs' where "qs = p # qs'" "path N p qs'"
    by (auto elim: path.cases)
  with above.IH show ?case by simp
qed

lemma path_split: "path N x ps \<Longrightarrow> x # ps = pre @ m # S \<Longrightarrow> path N m S"
proof (induction arbitrary: pre rule: path.induct)
  case (at_root x)
  then show ?case by (cases pre) (auto intro: path.at_root)
next
  case (above x p ps)
  show ?case
  proof (cases pre)
    case Nil
    with above show ?thesis by (auto intro: path.above)
  next
    case (Cons y pre')
    with above.prems have "p # ps = pre' @ m # S" by simp
    then show ?thesis by (rule above.IH)
  qed
qed

lemma path_notin:
  assumes "path N x ps"
  shows "x \<notin> set ps"
proof
  assume "x \<in> set ps"
  then obtain pre S where ps: "ps = pre @ x # S" by (auto dest: split_list)
  then have "x # ps = (x # pre) @ x # S" by simp
  from path_split [OF assms this] have "path N x S" .
  with assms have "ps = S" by (rule path_det)
  with ps have "length S = length pre + Suc (length S)" by (metis length_append length_Cons)
  then show False by simp
qed

lemma path_distinct: "path N x ps \<Longrightarrow> distinct (x # ps)"
proof (induction rule: path.induct)
  case (at_root x)
  then show ?case by simp
next
  case (above x p ps)
  have "path N x (p # ps)" using above.hyps by (auto intro: path.above)
  then have "x \<notin> set (p # ps)" by (rule path_notin)
  with above.IH show ?case by simp
qed

lemma path_last: "path N x ps \<Longrightarrow> N (last (x # ps)) = Some (last (x # ps))"
  by (induction rule: path.induct) auto

lemma path_set_dom: "path N x ps \<Longrightarrow> set (x # ps) \<subseteq> dom N"
  by (induction rule: path.induct) auto

text \<open>
  Two paths that end at the same root share a suffix from their first common node on, and
  are disjoint before it.
\<close>

lemma meet_exists:
  assumes pA: "path N a' A" and pB: "path N b' B"
    and same: "last (a' # A) = last (b' # B)"
  shows "\<exists>preA preB m S. a' # A = preA @ m # S \<and> b' # B = preB @ m # S
           \<and> set preA \<inter> set (b' # B) = {} \<and> set preB \<inter> set (a' # A) = {}"
proof -
  have ex: "\<exists>x\<in>set (a' # A). x \<in> set (b' # B)"
    using same by (metis last_in_set list.distinct(1))
  from split_list_first_prop [OF ex]
  obtain preA m SA where cA: "a' # A = preA @ m # SA" and m: "m \<in> set (b' # B)"
    and first: "\<forall>x\<in>set preA. x \<notin> set (b' # B)"
    by blast
  from split_list [OF m] obtain preB SB where cB: "b' # B = preB @ m # SB" by blast
  have "SA = SB" using path_split [OF pA cA] path_split [OF pB cB] by (rule path_det)
  have dB: "distinct (preB @ m # SB)" using path_distinct [OF pB] cB by simp
  have "set preB \<inter> set (a' # A) = {}"
  proof (rule ccontr)
    assume "set preB \<inter> set (a' # A) \<noteq> {}"
    then obtain x where x: "x \<in> set preB" "x \<in> set (preA @ m # SA)" using cA by auto
    then have "x \<in> set (b' # B)" using cB by simp
    with first have "x \<notin> set preA" by auto
    with x have "x \<in> set (m # SB)" using \<open>SA = SB\<close> by auto
    with x(1) dB show False by auto
  qed
  moreover have "set preA \<inter> set (b' # B) = {}" using first by auto
  ultimately show ?thesis using cA cB \<open>SA = SB\<close> by blast
qed

subsection \<open>The walks along a path\<close>

lemma walkA_path:
  "path (Nodes t) c ps \<Longrightarrow>
   walkA t b c l m =
     (if b \<in> set ps then Some (Return b)
      else Some (Lineage (l @ ps @ [last (c # ps)]) (m \<union> set ps \<union> {last (c # ps)})))"
proof (induction arbitrary: l m rule: path.induct)
  case (at_root x)
  then show ?case by (simp add: walkA_Some [OF resolve_Nodes])
next
  case (above x p ps)
  show ?case
    using above.hyps(1,2) by (auto simp: walkA_Some [OF resolve_Nodes] above.IH)
qed

lemma walkB_path:
  "path (Nodes t) c ps \<Longrightarrow>
   walkB t a mA c =
     Some (case find (\<lambda>p. p = a \<or> p \<in> mA) ps of Some p \<Rightarrow> Found p | None \<Rightarrow> ReachedRoot)"
proof (induction rule: path.induct)
  case (at_root x)
  then show ?case by (simp add: walkB_Some [OF resolve_Nodes])
next
  case (above x p ps)
  show ?case
    using above.hyps(1,2) by (auto simp: walkB_Some [OF resolve_Nodes] above.IH)
qed

lemma lca_value_unresolved_left: "resolve t a = None \<Longrightarrow> lca_value t a b = Some 0"
  by (simp add: lca_value_def lca_walks_def walkA_None)

lemma lca_value_unresolved_right:
  assumes ra: "resolve t a = Some (a', pa)" and pA: "path (Nodes t) a' A"
    and rb: "resolve t b = None"
  shows "lca_value t a b = Some 0"
proof -
  have "b \<notin> dom (Nodes t)" using resolve_NoneD [OF rb] by auto
  with path_set_dom [OF pA] have "b \<notin> set A" by auto
  then show ?thesis
    by (simp add: lca_value_def lca_walks_def walkA_resolve [OF ra] walkA_path [OF pA]
        walkB_None [OF rb])
qed

lemma lca_value_paths:
  assumes ra: "resolve t a = Some (a', pa)" and pA: "path (Nodes t) a' A"
    and rb: "resolve t b = Some (b', pb)" and pB: "path (Nodes t) b' B"
  shows "lca_value t a b =
    Some (if b \<in> set A then b
          else (case find (\<lambda>p. p = a \<or> p \<in> set A \<union> {last (a' # A)}) B of
                  Some p \<Rightarrow> p | None \<Rightarrow> rootNode t))"
proof (cases "b \<in> set A")
  case True
  then show ?thesis
    by (simp add: lca_value_def lca_walks_def walkA_resolve [OF ra] walkA_path [OF pA])
next
  case False
  then show ?thesis
    by (cases "find (\<lambda>p. p = a \<or> p \<in> set A \<union> {last (a' # A)}) B")
      (simp_all add: lca_value_def lca_walks_def walkA_resolve [OF ra] walkA_path [OF pA]
        walkB_resolve [OF rb] walkB_path [OF pB] del: Un_insert_right)
qed

lemma find_append_skip: "\<forall>x\<in>set xs. \<not> P x \<Longrightarrow> find P (xs @ ys) = find P ys"
  by (induction xs) auto

subsection \<open>The value at the meeting point of two paths\<close>

text \<open>
  With the chains of the two (resolved) arguments cut at their first common node \<open>m\<close>,
  the walks return \<open>m\<close>, except that an argument that reaches \<open>m\<close> only through the merge
  map is answered by the parent of \<open>m\<close>. The expression is the same for both orders of
  the arguments.
\<close>

lemma lca_value_meet:
  assumes root: "\<forall>r. Nodes t r = Some r \<longrightarrow> r = rootNode t"
    and ra: "resolve t a = Some (a', pa)" and pA: "path (Nodes t) a' A"
    and rb: "resolve t b = Some (b', pb)" and pB: "path (Nodes t) b' B"
    and cA: "a' # A = preA @ m # S" and cB: "b' # B = preB @ m # S"
    and disjA: "set preA \<inter> set (b' # B) = {}" and disjB: "set preB \<inter> set (a' # A) = {}"
  shows "lca_value t a b =
    Some (if (preA \<noteq> [] \<and> preB \<noteq> []) \<or> (preA = [] \<and> preB \<noteq> [] \<and> a = m)
             \<or> (preA \<noteq> [] \<and> preB = [] \<and> b = m)
          then m else hd (S @ [rootNode t]))"
proof -
  let ?r = "rootNode t"
  have dA: "distinct (preA @ m # S)" using path_distinct [OF pA] cA by simp
  have dB: "distinct (preB @ m # S)" using path_distinct [OF pB] cB by simp
  have domA: "set (preA @ m # S) \<subseteq> dom (Nodes t)" using path_set_dom [OF pA] cA by simp
  have domB: "set (preB @ m # S) \<subseteq> dom (Nodes t)" using path_set_dom [OF pB] cB by simp
  have a_dir: "a = a'" if "a \<in> dom (Nodes t)" using resolve_direct [OF ra that] by simp
  have b_dir: "b = b'" if "b \<in> dom (Nodes t)" using resolve_direct [OF rb that] by simp
  have last_r: "last (a' # A) = ?r" using path_last [OF pA] root by blast
  then have r: "last (m # S) = ?r" using cA by simp
  have S_r: "S \<noteq> [] \<Longrightarrow> last S = ?r" using r by simp
  have m_r: "S = [] \<Longrightarrow> m = ?r" using r by simp
  have r_in_S: "S \<noteq> [] \<Longrightarrow> ?r \<in> set S" using S_r last_in_set by metis
  have m_notin_S: "m \<notin> set S" using dA by simp
  note formula = lca_value_paths [OF ra pA rb pB, unfolded last_r]
  show ?thesis
  proof (cases preA)
    case Nil
    then have a': "a' = m" and A: "A = S" using cA by simp_all
    show ?thesis
    proof (cases preB)
      case Nil': Nil
      then have b': "b' = m" and B: "B = S" using cB by simp_all
      have "b \<notin> set S" using b_dir b' domA m_notin_S by auto
      then show ?thesis
        unfolding formula A B using Nil Nil'
        by (cases S) auto
    next
      case (Cons y ys)
      then have b': "b' = y" and B: "B = ys @ m # S" using cB by simp_all
      have y_notin: "y \<notin> set (m # S)" using dB Cons by auto
      have "b \<notin> set S" using b_dir b' domA y_notin by auto
      moreover have skip: "\<forall>p\<in>set ys. \<not> (p = a \<or> p \<in> set S \<union> {?r})"
      proof
        fix p assume p: "p \<in> set ys"
        then have pB: "p \<in> set preB" using Cons by simp
        then have "p \<notin> set (m # S)" using dB by auto
        moreover have "p \<noteq> a"
        proof
          assume "p = a"
          then have "a \<in> dom (Nodes t)" using domB pB by auto
          then have "a = m" using a_dir a' by simp
          with \<open>p = a\<close> \<open>p \<notin> set (m # S)\<close> show False by simp
        qed
        moreover have "?r \<in> set (m # S)" using r by (metis last_in_set list.distinct(1))
        ultimately show "\<not> (p = a \<or> p \<in> set S \<union> {?r})" by auto
      qed
      moreover have "find (\<lambda>p. p = a \<or> p \<in> set S \<union> {?r}) (ys @ m # S)
          = find (\<lambda>p. p = a \<or> p \<in> set S \<union> {?r}) (m # S)"
        by (rule find_append_skip [OF skip])
      ultimately have "lca_value t a b =
          Some (case find (\<lambda>p. p = a \<or> p \<in> set S \<union> {?r}) (m # S) of
                  Some p \<Rightarrow> p | None \<Rightarrow> ?r)"
        unfolding formula A B by simp
      then show ?thesis
        using Nil Cons m_notin_S m_r r_in_S
        by (cases S) auto
    qed
  next
    case (Cons x xs)
    then have a': "a' = x" and A: "A = xs @ m # S" using cA by simp_all
    have x_notin: "x \<notin> set (m # S)" using dA Cons by auto
    show ?thesis
    proof (cases preB)
      case Nil
      then have b': "b' = m" and B: "B = S" using cB by simp_all
      have bm: "b \<in> set A \<longleftrightarrow> b = m"
      proof
        assume "b \<in> set A"
        then have "b \<in> dom (Nodes t)" using domA A Cons by auto
        then show "b = m" using b_dir b' by simp
      next
        assume "b = m" then show "b \<in> set A" using A by simp
      qed
      show ?thesis
        unfolding formula bm unfolding A B using Nil Cons
        by (cases S) auto
    next
      case Cons': (Cons y ys)
      then have b': "b' = y" and B: "B = ys @ m # S" using cB by simp_all
      have yA: "y \<notin> set (a' # A)" using disjB Cons' by auto
      have "b \<notin> set A"
      proof
        assume "b \<in> set A"
        then have "b \<in> dom (Nodes t)" using domA A Cons by auto
        then have "b = y" using b_dir b' by simp
        with \<open>b \<in> set A\<close> yA show False by simp
      qed
      moreover have skip: "\<forall>p\<in>set ys. \<not> (p = a \<or> p \<in> set A \<union> {?r})"
      proof
        fix p assume p: "p \<in> set ys"
        then have pB: "p \<in> set preB" using Cons' by simp
        then have pA: "p \<notin> set (a' # A)" using disjB by auto
        moreover have "p \<noteq> a"
        proof
          assume "p = a"
          then have "a \<in> dom (Nodes t)" using domB pB by auto
          then have "a = a'" using a_dir by simp
          with \<open>p = a\<close> pA show False by simp
        qed
        moreover have "?r \<in> set (a' # A)" using last_r by (metis last_in_set list.distinct(1))
        ultimately show "\<not> (p = a \<or> p \<in> set A \<union> {?r})" by auto
      qed
      moreover have "find (\<lambda>p. p = a \<or> p \<in> set A \<union> {?r}) (ys @ m # S)
          = find (\<lambda>p. p = a \<or> p \<in> set A \<union> {?r}) (m # S)"
        by (rule find_append_skip [OF skip])
      ultimately have "lca_value t a b =
          Some (case find (\<lambda>p. p = a \<or> p \<in> set A \<union> {?r}) (m # S) of
                  Some p \<Rightarrow> p | None \<Rightarrow> ?r)"
        unfolding formula B by simp
      then show ?thesis
        using Cons Cons' A
        by auto
    qed
  qed
qed

lemma lca_value_total_sym:
  assumes wf: "well_formed t"
  shows "\<exists>v. lca_value t a b = Some v \<and> lca_value t b a = Some v"
proof (cases "resolve t a")
  case None
  show ?thesis
  proof (cases "resolve t b")
    case None': None
    show ?thesis using None None' by (simp add: lca_value_unresolved_left)
  next
    case (Some bp)
    obtain b' pb where rb: "resolve t b = Some (b', pb)" using Some by (cases bp) simp
    obtain B where pB: "path (Nodes t) b' B"
      using wf resolve_SomeD [OF rb] unfolding well_formed_def by blast
    show ?thesis
      using lca_value_unresolved_left [OF None] lca_value_unresolved_right [OF rb pB None]
      by simp
  qed
next
  case (Some ap)
  obtain a' pa where ra: "resolve t a = Some (a', pa)" using Some by (cases ap) simp
  obtain A where pA: "path (Nodes t) a' A"
    using wf resolve_SomeD [OF ra] unfolding well_formed_def by blast
  show ?thesis
  proof (cases "resolve t b")
    case None
    show ?thesis
      using lca_value_unresolved_left [OF None] lca_value_unresolved_right [OF ra pA None]
      by simp
  next
    case Some': (Some bp)
    obtain b' pb where rb: "resolve t b = Some (b', pb)" using Some' by (cases bp) simp
    obtain B where pB: "path (Nodes t) b' B"
      using wf resolve_SomeD [OF rb] unfolding well_formed_def by blast
    have root: "\<forall>r. Nodes t r = Some r \<longrightarrow> r = rootNode t"
      using wf unfolding well_formed_def by blast
    have "last (a' # A) = last (b' # B)"
      using path_last [OF pA] path_last [OF pB] root by metis
    from meet_exists [OF pA pB this] obtain preA preB m S where
      cA: "a' # A = preA @ m # S" and cB: "b' # B = preB @ m # S"
      and dA: "set preA \<inter> set (b' # B) = {}" and dB: "set preB \<inter> set (a' # A) = {}"
      by blast
    show ?thesis
      unfolding lca_value_meet [OF root ra pA rb pB cA cB dA dB]
        lca_value_meet [OF root rb pB ra pA cB cA dB dA]
      by auto
  qed
qed

subsection \<open>The cache\<close>

lemma unpack_hi:
  "ucast (drop_bit 32 (push_bit 32 (ucast a) OR ucast (b :: u32) :: u64)) = (a :: u32)"
  by (rule bit_word_eqI) (auto simp: bit_simps dest: bit_imp_le_length)

lemma unpack_lo:
  "ucast (push_bit 32 (ucast (a :: u32)) OR ucast b :: u64) = (b :: u32)"
  by (rule bit_word_eqI) (auto simp: bit_simps)

lemma pack2uint32_inj:
  assumes "pack2uint32 a b = pack2uint32 c d"
  shows "(a = c \<and> b = d) \<or> (a = d \<and> b = c)"
proof -
  define lo hi where "lo = (if a < b then a else b)" and "hi = (if a < b then b else a)"
  define lo' hi' where "lo' = (if c < d then c else d)" and "hi' = (if c < d then d else c)"
  have k: "pack2uint32 a b = push_bit 32 (ucast lo) OR ucast hi"
    and k': "pack2uint32 c d = push_bit 32 (ucast lo') OR ucast hi'"
    by (simp_all add: pack2uint32_def lo_def hi_def lo'_def hi'_def)
  have "lo = lo'"
    using unpack_hi [of lo hi] unpack_hi [of lo' hi'] assms k k' by (simp del: drop_bit_or)
  moreover have "hi = hi'"
    using unpack_lo [of lo hi] unpack_lo [of lo' hi'] assms k k' by simp
  ultimately show ?thesis
    by (auto simp: lo_def hi_def lo'_def hi'_def split: if_splits)
qed

lemma pack2uint32_commute: "pack2uint32 a b = pack2uint32 b a"
  by (auto simp: pack2uint32_def)

lemma resolve_store_lca: "resolve (store_lca t q v) = resolve t"
  by (rule ext) (auto simp: store_lca_def resolve_def split: option.splits)

lemma LCA_lca_value:
  assumes "a \<noteq> 0" and "b \<noteq> 0" and "a \<noteq> b" and cs: "cache_sound t"
    and val: "lca_value t a b = Some v"
  shows "map_option fst (LCA t a b) = Some v"
proof (cases "if cacheLCA t then lcaCache t (pack2uint32 a b) else None")
  case None
  obtain st where "lca_walks t a b = Some (v, st)"
    using val by (auto simp: lca_value_def)
  with None assms(1-3) show ?thesis
    by (auto simp: LCA_def Let_def split: if_splits)
next
  case (Some tmp)
  then have hit: "cacheLCA t" "lcaCache t (pack2uint32 a b) = Some tmp"
    by (auto split: if_splits)
  with cs assms(1-3) have "lca_value t a b = Some tmp"
    unfolding cache_sound_def by blast
  with val have "tmp = v" by simp
  with hit assms(1-3) show ?thesis
    by (simp add: LCA_def)
qed

lemma cache_sound_store_lca:
  assumes wf: "well_formed t" and cs: "cache_sound t"
    and val: "lca_value t a b = Some v"
  shows "cache_sound (store_lca t (pack2uint32 a b) v)"
proof (cases "cacheLCA t")
  case False
  with cs show ?thesis by (simp add: store_lca_def)
next
  case True
  let ?t' = "store_lca t (pack2uint32 a b) v"
  have same: "lca_value ?t' x y = lca_value t x y" for x y
    by (rule lca_value_cong) (simp_all add: resolve_store_lca, simp add: store_lca_def)
  have cache: "lcaCache ?t' = (lcaCache t)(pack2uint32 a b \<mapsto> v)"
    using True by (simp add: store_lca_def)
  show ?thesis
    unfolding cache_sound_def
  proof (intro allI impI)
    fix x y w
    assume h: "x \<noteq> 0 \<and> y \<noteq> 0 \<and> x \<noteq> y \<and> lcaCache ?t' (pack2uint32 x y) = Some w"
    show "lca_value ?t' x y = Some w"
    proof (cases "pack2uint32 x y = pack2uint32 a b")
      case True
      with h cache have "w = v" by simp
      from pack2uint32_inj [OF True] have "(x = a \<and> y = b) \<or> (x = b \<and> y = a)" .
      moreover from lca_value_total_sym [OF wf, of a b] val
      have "lca_value t b a = Some v" by auto
      ultimately show ?thesis using val \<open>w = v\<close> same by auto
    next
      case False
      with h cache have "lcaCache t (pack2uint32 x y) = Some w" by simp
      with h cs have "lca_value t x y = Some w" unfolding cache_sound_def by blast
      then show ?thesis using same by simp
    qed
  qed
qed

text \<open>
  One call on a well-formed store with a sound cache: it returns the value of the walks
  and leaves such a store behind.
\<close>

lemma LCA_step:
  assumes wf: "well_formed t" and cs: "cache_sound t"
  shows "\<exists>v t'. LCA t a b = Some (v, t') \<and> Nodes t' = Nodes t \<and> rootNode t' = rootNode t
           \<and> resolve t' = resolve t \<and> cache_sound t'"
proof (cases "a = 0 \<or> b = 0 \<or> a = b")
  case True
  then show ?thesis using cs by (auto simp: LCA_def)
next
  case False
  then have nz: "a \<noteq> 0" "b \<noteq> 0" "a \<noteq> b" by auto
  obtain v where val: "lca_value t a b = Some v"
    using lca_value_total_sym [OF wf, of a b] by blast
  then obtain st where walks: "lca_walks t a b = Some (v, st)"
    by (auto simp: lca_value_def)
  show ?thesis
  proof (cases "if cacheLCA t then lcaCache t (pack2uint32 a b) else None")
    case (Some tmp)
    with nz have "LCA t a b = Some (tmp, t)" by (auto simp: LCA_def split: if_splits)
    with cs show ?thesis by simp
  next
    case None
    show ?thesis
    proof (cases "st \<and> cacheLCA t")
      case True
      with None nz walks
      have "LCA t a b = Some (v, store_lca t (pack2uint32 a b) v)"
        by (auto simp: LCA_def split: if_splits)
      moreover have "Nodes (store_lca t (pack2uint32 a b) v) = Nodes t"
        and "rootNode (store_lca t (pack2uint32 a b) v) = rootNode t"
        by (simp_all add: store_lca_def)
      ultimately show ?thesis
        using cache_sound_store_lca [OF wf cs val] resolve_store_lca by auto
    next
      case False
      with None nz walks have "LCA t a b = Some (v, t)"
        by (auto simp: LCA_def store_lca_def split: if_splits)
      with cs show ?thesis by simp
    qed
  qed
qed

lemma well_formed_cong:
  "Nodes t' = Nodes t \<Longrightarrow> rootNode t' = rootNode t \<Longrightarrow> well_formed t' = well_formed t"
  by (simp add: well_formed_def)

lemma LCA_calls_sound:
  assumes "well_formed t" and "cache_sound t"
  shows "\<exists>t'. LCA_calls t queries = Some t' \<and> well_formed t' \<and> cache_sound t'
           \<and> rootNode t' = rootNode t \<and> resolve t' = resolve t"
  using assms
proof (induction queries arbitrary: t)
  case Nil
  then show ?case by simp
next
  case (Cons q queries)
  obtain a b where q: "q = (a, b)" by (cases q)
  from LCA_step [OF Cons.prems, of a b] obtain v t1 where
    step: "LCA t a b = Some (v, t1)" "Nodes t1 = Nodes t" "rootNode t1 = rootNode t"
      "resolve t1 = resolve t" "cache_sound t1"
    by blast
  have "well_formed t1" using Cons.prems(1) well_formed_cong [OF step(2,3)] by simp
  from Cons.IH [OF this step(5)] obtain t' where
    "LCA_calls t1 queries = Some t'" "well_formed t'" "cache_sound t'"
    "rootNode t' = rootNode t1" "resolve t' = resolve t1"
    by blast
  with step q show ?case by simp
qed

subsection \<open>The example tree\<close>

lemma Nodes_example_tree:
  "Nodes example_tree = [1 \<mapsto> 1, 2 \<mapsto> 1, 3 \<mapsto> 2, 4 \<mapsto> 2, 5 \<mapsto> 3, 6 \<mapsto> 3, 7 \<mapsto> 4]"
  by (simp add: example_tree_def zero_Taxonomy_def)

lemma well_formed_example_tree: "well_formed example_tree"
proof -
  let ?N = "Nodes example_tree"
  note N = Nodes_example_tree
  have p1: "path ?N 1 []" by (rule path.at_root) (simp add: N)
  have p2: "path ?N 2 [1]" by (rule path.above [OF _ _ p1]) (simp_all add: N)
  have p3: "path ?N 3 [2, 1]" by (rule path.above [OF _ _ p2]) (simp_all add: N)
  have p4: "path ?N 4 [2, 1]" by (rule path.above [OF _ _ p2]) (simp_all add: N)
  have p5: "path ?N 5 [3, 2, 1]" by (rule path.above [OF _ _ p3]) (simp_all add: N)
  have p6: "path ?N 6 [3, 2, 1]" by (rule path.above [OF _ _ p3]) (simp_all add: N)
  have p7: "path ?N 7 [4, 2, 1]" by (rule path.above [OF _ _ p4]) (simp_all add: N)
  have keys: "x \<in> {1, 2, 3, 4, 5, 6, 7}" if "?N x = Some p" for x p
    using that by (auto simp: N split: if_splits)
  have "\<exists>ps. path ?N x ps" if "?N x = Some p" for x p
    using keys [OF that] p1 p2 p3 p4 p5 p6 p7 by auto
  moreover have "r = rootNode example_tree" if "?N r = Some r" for r
    using that by (auto simp: N example_tree_def split: if_splits)
  ultimately show ?thesis unfolding well_formed_def by blast
qed

lemma cache_sound_empty: "lcaCache t = Map.empty \<Longrightarrow> cache_sound t"
  by (simp add: cache_sound_def)

lemma cache_sound_example_tree: "cache_sound example_tree"
  by (rule cache_sound_empty) (simp add: example_tree_def zero_Taxonomy_def)

subsection \<open>The store with a dangling parent\<close>

lemmas parse_eval =
  minInt.simps parse_taxon_def TrimSpace_def isSpace_def space2_def space3_def index_def
  Atoi_def NewBufferedReader_def add_taxon_def

lemmas LCA_eval =
  LCA_def lca_walks_def walkA_None walkA_Some walkB_None walkB_Some resolve_def
  store_lca_def CacheLCA_def pack2uint32_def

lemma NewTaxonomy_dangling: "NewTaxonomy dangling_fs ''nodes.dmp'' 1 3 = Inr dangling_store"
  by (simp add: NewTaxonomy_def parse_eval dangling_fs_def dangling_line_def
      dangling_store_def zero_Taxonomy_def)

section \<open>The reader and the loaders\<close>

declare minInt.simps [simp del]

subsection \<open>Chunks of a file whose lines parse\<close>

lemma parsed_records_append:
  "parsed_records fn (xs @ ys) = parsed_records fn xs @ parsed_records fn ys"
  by (simp add: parsed_records_def)

lemma process_lines_parses:
  "\<forall>l\<in>set ls. parses fn l \<Longrightarrow>
   process_lines fn ls acc = Inr \<lparr>Data = acc @ parsed_records fn ls, Err = None\<rparr>"
  by (induction ls arbitrary: acc)
    (auto simp: parses_def parsed_records_def split: parsed.splits)

lemma process_lines_clean:
  "process_lines fn ls acc = Inr ch \<Longrightarrow> Err ch = None \<Longrightarrow> \<forall>l\<in>set ls. parses fn l"
proof (induction ls arbitrary: acc)
  case Nil
  then show ?case by simp
next
  case (Cons l ls)
  show ?case
  proof (cases "fn l")
    case (Parsed r)
    with Cons.prems have "process_lines fn ls (acc @ [r]) = Inr ch" by simp
    from Cons.IH [OF this Cons.prems(2)] Parsed show ?thesis by (simp add: parses_def)
  next
    case Skipped
    with Cons.prems have "process_lines fn ls acc = Inr ch" by simp
    from Cons.IH [OF this Cons.prems(2)] Skipped show ?thesis by (simp add: parses_def)
  next
    case (Malformed e)
    with Cons.prems show ?thesis by auto
  next
    case (Crashed p)
    with Cons.prems show ?thesis by simp
  qed
qed

lemma process_chunks_parses:
  "\<forall>c\<in>set cs. \<forall>l\<in>set c. parses fn l \<Longrightarrow>
   \<exists>chunks. process_chunks fn cs = Inr chunks \<and> (\<forall>ch\<in>set chunks. Err ch = None)
     \<and> concat (map Data chunks) = parsed_records fn (concat cs)"
proof (induction cs)
  case Nil
  then show ?case by (simp add: parsed_records_def)
next
  case (Cons c cs)
  from Cons.prems have c: "\<forall>l\<in>set c. parses fn l" by simp
  from Cons.prems Cons.IH obtain chunks where
    rest: "process_chunks fn cs = Inr chunks" "\<forall>ch\<in>set chunks. Err ch = None"
      "concat (map Data chunks) = parsed_records fn (concat cs)"
    by auto
  show ?case
    using rest by (simp add: process_lines_parses [OF c] parsed_records_append)
qed

lemma process_chunks_clean:
  "process_chunks fn cs = Inr chunks \<Longrightarrow> \<forall>ch\<in>set chunks. Err ch = None \<Longrightarrow>
   \<forall>c\<in>set cs. \<forall>l\<in>set c. parses fn l"
proof (induction cs arbitrary: chunks)
  case Nil
  then show ?case by simp
next
  case (Cons c cs)
  from Cons.prems(1) obtain ch where ch: "process_lines fn c [] = Inr ch"
    by (auto split: sum.splits)
  show ?case
  proof (cases "Err ch")
    case (Some e)
    with Cons.prems ch show ?thesis by auto
  next
    case None
    with Cons.prems(1) ch obtain chunks' where
      rest: "process_chunks fn cs = Inr chunks'" "chunks = ch # chunks'"
      by (auto split: sum.splits)
    with Cons.prems(2) have "\<forall>ch\<in>set chunks'. Err ch = None" by simp
    from Cons.IH [OF rest(1) this] process_lines_clean [OF ch None]
    show ?thesis by simp
  qed
qed

lemma concat_chunks_of: "0 < n \<Longrightarrow> concat (chunks_of n xs) = xs"
  by (induction n xs rule: chunks_of.induct) simp_all

lemma chunks_of_lines:
  assumes "0 < n"
  shows "(\<forall>c\<in>set (chunks_of n xs). \<forall>l\<in>set c. P l) \<longleftrightarrow> (\<forall>l\<in>set xs. P l)"
proof -
  have "set xs = \<Union> (set ` set (chunks_of n xs))"
    using concat_chunks_of [OF assms, of xs] by (metis set_concat)
  then show ?thesis by auto
qed

lemma reader_parses:
  assumes "fs file = Some lines" and "\<forall>l\<in>set lines. parses fn l" and "0 < n"
  shows "\<exists>chunks. NewBufferedReader fs file b n fn = Inr chunks
           \<and> (\<forall>ch\<in>set chunks. Err ch = None)
           \<and> concat (map Data chunks) = parsed_records fn lines"
proof -
  have "\<forall>c\<in>set (chunks_of n lines). \<forall>l\<in>set c. parses fn l"
    using assms(2,3) by (simp add: chunks_of_lines)
  from process_chunks_parses [OF this] show ?thesis
    using assms(1,3) by (auto simp: NewBufferedReader_def concat_chunks_of)
qed

lemma reader_clean:
  assumes "NewBufferedReader fs file b n fn = Inr chunks"
    and "\<forall>ch\<in>set chunks. Err ch = None" and "0 < n"
  shows "\<exists>lines. fs file = Some lines \<and> (\<forall>l\<in>set lines. parses fn l)
           \<and> concat (map Data chunks) = parsed_records fn lines"
proof -
  from assms(1) obtain lines where
    lines: "fs file = Some lines" "process_chunks fn (chunks_of n lines) = Inr chunks"
    by (auto simp: NewBufferedReader_def split: option.splits sum.splits)
  from process_chunks_clean [OF lines(2) assms(2)]
  have ok: "\<forall>l\<in>set lines. parses fn l" using assms(3) by (simp add: chunks_of_lines)
  from reader_parses [where fs = fs and b = b, OF lines(1) ok assms(3)] assms(1) lines(1) ok
  show ?thesis by auto
qed

subsection \<open>The loops over the chunks\<close>

lemma build_nodes_Inr:
  "build_nodes chunks s = Inr s' \<longleftrightarrow>
     (\<forall>ch\<in>set chunks. Err ch = None) \<and> s' = fold add_taxon (concat (map Data chunks)) s"
  by (induction chunks arbitrary: s) (auto split: option.splits)

lemma collect_merged_Inr:
  "collect_merged chunks m = Inr m' \<longleftrightarrow>
     (\<forall>ch\<in>set chunks. Err ch = None)
     \<and> m' = fold (\<lambda>p m. m(fst p \<mapsto> snd p)) (concat (map Data chunks)) m"
  by (induction chunks arbitrary: m) (auto split: option.splits)

lemma collect_deleted_Inr:
  "collect_deleted chunks m = Inr m' \<longleftrightarrow>
     (\<forall>ch\<in>set chunks. Err ch = None) \<and> m' = fold insert (concat (map Data chunks)) m"
  by (induction chunks arbitrary: m) (auto split: option.splits)

lemma fold_update_last_target:
  "fold (\<lambda>p m. m(fst p \<mapsto> snd p)) pairs m = m ++ last_target pairs"
  by (induction pairs arbitrary: m) (simp_all add: last_target_def map_add_upd_left)

lemma fold_insert_set: "fold insert xs A = set xs \<union> A"
  by (induction xs arbitrary: A) auto

lemma add_taxon_max:
  "add_taxon tax (nodes, root, m) =
     (nodes(Taxid tax \<mapsto> Parent tax), (if Taxid tax = Parent tax then Taxid tax else root),
      max m (Taxid tax))"
  by (auto simp: add_taxon_def max_def)

lemma fold_add_taxon_max:
  "snd (snd (fold add_taxon taxa (nodes, root, m))) = Max (insert m (Taxid ` set taxa))"
proof (induction taxa arbitrary: nodes root m)
  case Nil
  then show ?case by simp
next
  case (Cons tax taxa)
  have "Max (insert (max m (Taxid tax)) (Taxid ` set taxa))
      = Max (insert m (insert (Taxid tax) (Taxid ` set taxa)))"
    by (cases "Taxid ` set taxa = {}") (simp_all add: max.assoc)
  then show ?case by (simp add: add_taxon_max Cons.IH)
qed

subsection \<open>The rank table\<close>

lemma ranks_inv_init: "ranks_inv [] (Map.empty, [], Map.empty, {})"
  by (simp add: ranks_inv_def last_rank_def)

lemma last_rank_snoc: "last_rank (seen @ [x]) = (last_rank seen)(Taxid x \<mapsto> Rank x)"
  by (rule ext) (simp add: last_rank_def)

lemma unat_rankid: "i < 256 \<Longrightarrow> unat (word_of_int (int i) :: u8) = i"
  by (simp add: unat_of_nat)

lemma ranks_inv_card:
  "ranks_inv seen (t2r, rks, r2id, rmap) \<Longrightarrow> card (Rank ` set seen) = length rks"
  by (auto simp: ranks_inv_def dest: distinct_card)

lemma add_rank_known:
  assumes inv: "ranks_inv seen (t2r, rks, r2id, rmap)" and known: "Rank x \<in> Rank ` set seen"
  shows "\<exists>s'. add_rank x (t2r, rks, r2id, rmap) = Inr s' \<and> ranks_inv (seen @ [x]) s'"
proof -
  from inv have set: "set rks = Rank ` set seen" and len: "length rks \<le> 255"
    and ids: "\<And>name i. r2id name = Some i \<longleftrightarrow> 0 \<le> i \<and> nat i < length rks \<and> rks ! nat i = name"
    and t2r: "\<And>y. map_option (\<lambda>w. rks ! unat w) (t2r y) = last_rank seen y"
    and bound: "\<And>y w. t2r y = Some w \<Longrightarrow> unat w < length rks"
    by (auto simp: ranks_inv_def)
  from known set have "Rank x \<in> set rks" by simp
  then obtain i where i: "i < length rks" "rks ! i = Rank x"
    by (auto simp: in_set_conv_nth)
  then have id: "r2id (Rank x) = Some (int i)" using ids [of "Rank x" "int i"] by simp
  have u: "unat (word_of_int (int i) :: u8) = i" using i(1) len by (intro unat_rankid) simp
  have step: "add_rank x (t2r, rks, r2id, rmap)
      = Inr (t2r(Taxid x \<mapsto> word_of_int (int i)), rks, r2id, rmap)"
    using id by (simp add: add_rank_def)
  have "ranks_inv (seen @ [x]) (t2r(Taxid x \<mapsto> word_of_int (int i)), rks, r2id, rmap)"
    unfolding ranks_inv_def
    using inv known i u t2r bound
    by (auto simp: ranks_inv_def last_rank_snoc)
  with step show ?thesis by simp
qed

lemma add_rank_new:
  assumes inv: "ranks_inv seen (t2r, rks, r2id, rmap)" and new: "Rank x \<notin> Rank ` set seen"
    and room: "card (Rank ` set seen) < 255"
  shows "\<exists>s'. add_rank x (t2r, rks, r2id, rmap) = Inr s' \<and> ranks_inv (seen @ [x]) s'"
proof -
  from inv have set: "set rks = Rank ` set seen" and dist: "distinct rks"
    and rmap: "rmap = set rks"
    and ids: "\<And>name i. r2id name = Some i \<longleftrightarrow> 0 \<le> i \<and> nat i < length rks \<and> rks ! nat i = name"
    and t2r: "\<And>y. map_option (\<lambda>w. rks ! unat w) (t2r y) = last_rank seen y"
    and bound: "\<And>y w. t2r y = Some w \<Longrightarrow> unat w < length rks"
    by (auto simp: ranks_inv_def)
  have len: "length rks < 255" using room ranks_inv_card [OF inv] by simp
  have notin: "Rank x \<notin> set rks" using new set by simp
  have id: "r2id (Rank x) = None"
  proof (cases "r2id (Rank x)")
    case (Some i)
    then have "rks ! nat i = Rank x" "nat i < length rks" using ids by auto
    with notin show ?thesis by (metis nth_mem)
  qed simp
  let ?n = "length rks"
  let ?s' = "(t2r(Taxid x \<mapsto> word_of_int (int ?n)), rks @ [Rank x],
              r2id(Rank x \<mapsto> int ?n), insert (Rank x) rmap)"
  have step: "add_rank x (t2r, rks, r2id, rmap) = Inr ?s'"
    using id len by (simp add: add_rank_def Let_def)
  have u: "unat (word_of_int (int ?n) :: u8) = ?n" using len by (intro unat_rankid) simp
  have ids': "(r2id(Rank x \<mapsto> int ?n)) name = Some i
      \<longleftrightarrow> 0 \<le> i \<and> nat i < length (rks @ [Rank x]) \<and> (rks @ [Rank x]) ! nat i = name"
    for name i
  proof (cases "name = Rank x")
    case True
    have "nat i < ?n \<Longrightarrow> rks ! nat i \<noteq> Rank x" using notin by (metis nth_mem)
    with True show ?thesis by (auto simp: nth_append)
  next
    case False
    then show ?thesis using ids [of name i] by (auto simp: nth_append)
  qed
  have t2r': "map_option (\<lambda>w. (rks @ [Rank x]) ! unat w) ((t2r(Taxid x \<mapsto> word_of_int (int ?n))) y)
      = last_rank (seen @ [x]) y" for y
  proof (cases "y = Taxid x")
    case True
    then show ?thesis using u by (simp add: last_rank_snoc)
  next
    case False
    show ?thesis
    proof (cases "t2r y")
      case None
      with False t2r [of y] show ?thesis by (simp add: last_rank_snoc)
    next
      case (Some w)
      with bound have "unat w < ?n" by simp
      with False Some t2r [of y] show ?thesis by (simp add: last_rank_snoc nth_append)
    qed
  qed
  have bound': "(t2r(Taxid x \<mapsto> word_of_int (int ?n))) y = Some w
      \<Longrightarrow> unat w < length (rks @ [Rank x])" for y w
    using u bound [of y w] by (auto split: if_splits)
  have "ranks_inv (seen @ [x]) ?s'"
    unfolding ranks_inv_def
    using dist notin set rmap len ids' t2r' bound'
    by (simp add: insert_commute)
  with step show ?thesis by blast
qed

lemma add_rank_full:
  assumes inv: "ranks_inv seen (t2r, rks, r2id, rmap)" and new: "Rank x \<notin> Rank ` set seen"
    and full: "255 \<le> card (Rank ` set seen)"
  shows "add_rank x (t2r, rks, r2id, rmap) = Inl ErrTooManyRanks"
proof -
  from inv have set: "set rks = Rank ` set seen"
    and ids: "\<And>name i. r2id name = Some i \<longleftrightarrow> 0 \<le> i \<and> nat i < length rks \<and> rks ! nat i = name"
    by (auto simp: ranks_inv_def)
  have len: "255 \<le> length rks" using full ranks_inv_card [OF inv] by simp
  have notin: "Rank x \<notin> set rks" using new set by simp
  have id: "r2id (Rank x) = None"
  proof (cases "r2id (Rank x)")
    case (Some i)
    then have "rks ! nat i = Rank x" "nat i < length rks" using ids by auto
    with notin show ?thesis by (metis nth_mem)
  qed simp
  show ?thesis using id len by (simp add: add_rank_def Let_def)
qed

lemma add_ranked_taxa_inv:
  assumes "ranks_inv seen rs"
  shows "(card (Rank ` set (seen @ taxa)) \<le> 255 \<longrightarrow>
            (\<exists>rs'. add_ranked_taxa taxa (ns, rs) = Inr (fold add_taxon taxa ns, rs')
               \<and> ranks_inv (seen @ taxa) rs'))
         \<and> (255 < card (Rank ` set (seen @ taxa)) \<longrightarrow>
            add_ranked_taxa taxa (ns, rs) = Inl ErrTooManyRanks)"
  using assms
proof (induction taxa arbitrary: seen ns rs)
  case Nil
  obtain t2r rks r2id rmap where rs: "rs = (t2r, rks, r2id, rmap)" by (cases rs)
  from Nil ranks_inv_card [of seen t2r rks r2id rmap] have "card (Rank ` set seen) \<le> 255"
    unfolding rs by (simp add: ranks_inv_def)
  with Nil show ?case by simp
next
  case (Cons x taxa)
  obtain t2r rks r2id rmap where rs: "rs = (t2r, rks, r2id, rmap)" by (cases rs)
  note inv = Cons.prems [unfolded rs]
  have mono: "card (Rank ` set (seen @ [x])) \<le> card (Rank ` set (seen @ x # taxa))"
    by (rule card_mono) auto
  show ?case
  proof (cases "Rank x \<in> Rank ` set seen \<or> card (Rank ` set seen) < 255")
    case True
    then obtain rs1 where
      step: "add_rank x (t2r, rks, r2id, rmap) = Inr rs1" "ranks_inv (seen @ [x]) rs1"
      using add_rank_known [OF inv] add_rank_new [OF inv] by blast
    from Cons.IH [OF step(2), of "add_taxon x ns"] step(1) show ?thesis
      by (simp add: rs)
  next
    case False
    then have new: "Rank x \<notin> Rank ` set seen" and full: "255 \<le> card (Rank ` set seen)"
      by auto
    have "card (Rank ` set (seen @ [x])) = Suc (card (Rank ` set seen))"
      using new by simp
    with full mono have "255 < card (Rank ` set (seen @ x # taxa))" by simp
    with add_rank_full [OF inv new full] show ?thesis by (simp add: rs)
  qed
qed

lemma add_ranked_taxa_append:
  "add_ranked_taxa (xs @ ys) s =
     (case add_ranked_taxa xs s of Inl err \<Rightarrow> Inl err | Inr s' \<Rightarrow> add_ranked_taxa ys s')"
proof (induction xs arbitrary: s)
  case Nil
  then show ?case by simp
next
  case (Cons x xs)
  obtain ns rs where s: "s = (ns, rs)" by (cases s)
  show ?case by (simp add: s Cons.IH split: sum.splits)
qed

lemma build_ranked_clean:
  "\<forall>ch\<in>set chunks. Err ch = None \<Longrightarrow>
   build_ranked chunks s = add_ranked_taxa (concat (map Data chunks)) s"
proof (induction chunks arbitrary: s)
  case Nil
  then show ?case by (cases s) simp
next
  case (Cons ch chunks)
  then show ?case by (simp add: add_ranked_taxa_append split: sum.splits)
qed

lemma build_ranked_Inr_clean:
  "build_ranked chunks s = Inr s' \<Longrightarrow> \<forall>ch\<in>set chunks. Err ch = None"
  by (induction chunks arbitrary: s) (auto split: option.splits sum.splits)

subsection \<open>What the loaders leave behind\<close>

lemma LoadMergedNodes_cases:
  "(\<exists>e. LoadMergedNodes t fs file oldColumn newColumn = (Some e, t))
   \<or> (\<exists>lines. fs file = Some lines
        \<and> LoadMergedNodes t fs file oldColumn newColumn =
            (None, t\<lparr>MergeNodes :=
                     last_target
                       (parsed_records
                          (parse_merged (if newColumn > oldColumn then newColumn else oldColumn)
                             (oldColumn - 1) (newColumn - 1)) lines),
                   hasMergeNodes := True\<rparr>))"
proof (cases "oldColumn < 1 \<or> newColumn < 1")
  case True
  then show ?thesis by (auto simp: LoadMergedNodes_def)
next
  case False
  let ?fn = "parse_merged (if newColumn > oldColumn then newColumn else oldColumn)
               (oldColumn - 1) (newColumn - 1)"
  show ?thesis
  proof (cases "NewBufferedReader fs file 3 50 ?fn")
    case (Inl f)
    with False show ?thesis by (cases f) (auto simp: LoadMergedNodes_def)
  next
    case (Inr chunks)
    show ?thesis
    proof (cases "collect_merged chunks Map.empty")
      case (Inl err)
      with False Inr show ?thesis by (auto simp: LoadMergedNodes_def)
    next
      case Inr': (Inr m)
      then have clean: "\<forall>ch\<in>set chunks. Err ch = None"
        and m: "m = fold (\<lambda>p m. m(fst p \<mapsto> snd p)) (concat (map Data chunks)) Map.empty"
        by (simp_all add: collect_merged_Inr)
      from reader_clean [OF Inr clean] obtain lines where
        "fs file = Some lines" "concat (map Data chunks) = parsed_records ?fn lines"
        by auto
      with False Inr Inr' m show ?thesis
        by (auto simp: LoadMergedNodes_def fold_update_last_target)
    qed
  qed
qed

lemma LoadDeletedNodes_cases:
  "(\<exists>e. LoadDeletedNodes t fs file column = (Some e, t))
   \<or> (\<exists>lines. fs file = Some lines
        \<and> LoadDeletedNodes t fs file column =
            (None, t\<lparr>DelNodes := set (parsed_records (parse_deleted column) lines),
                   hasDelNodes := True\<rparr>))"
proof (cases "column < 1")
  case True
  then show ?thesis by (auto simp: LoadDeletedNodes_def)
next
  case False
  show ?thesis
  proof (cases "NewBufferedReader fs file 3 50 (parse_deleted column)")
    case (Inl f)
    with False show ?thesis by (cases f) (auto simp: LoadDeletedNodes_def)
  next
    case (Inr chunks)
    show ?thesis
    proof (cases "collect_deleted chunks {}")
      case (Inl err)
      with False Inr show ?thesis by (auto simp: LoadDeletedNodes_def)
    next
      case Inr': (Inr m)
      then have clean: "\<forall>ch\<in>set chunks. Err ch = None"
        and m: "m = fold insert (concat (map Data chunks)) {}"
        by (simp_all add: collect_deleted_Inr)
      from reader_clean [OF Inr clean] obtain lines where
        "fs file = Some lines"
        "concat (map Data chunks) = parsed_records (parse_deleted column) lines"
        by auto
      with False Inr Inr' m show ?thesis
        by (auto simp: LoadDeletedNodes_def fold_insert_set)
    qed
  qed
qed

subsection \<open>What the constructors return\<close>

lemma NewTaxonomy_Inr:
  assumes "NewTaxonomy fs file1 c p = Inr t"
  shows "\<exists>lines. fs file1 = Some lines
           \<and> (\<forall>l\<in>set lines. parses (parse_taxon (minInt c [p]) (c - 1) (p - 1)) l)
           \<and> t = (case fold add_taxon
                          (parsed_records (parse_taxon (minInt c [p]) (c - 1) (p - 1)) lines)
                          (Map.empty, 0, 0) of
                    (nodes, root, m) \<Rightarrow>
                      zero_Taxonomy\<lparr>filename := file1, Nodes := nodes, rootNode := root,
                        maxTaxid := m\<rparr>)"
proof -
  let ?fn = "parse_taxon (minInt c [p]) (c - 1) (p - 1)"
  from assms have cols: "\<not> (c < 1 \<or> p < 1)"
    by (auto simp: NewTaxonomy_def split: if_splits)
  from assms cols obtain chunks where
    reader: "NewBufferedReader fs file1 8 100 ?fn = Inr chunks"
    by (cases "NewBufferedReader fs file1 8 100 ?fn")
      (auto simp: NewTaxonomy_def Let_def split: failure.splits)
  from assms cols reader obtain s' where
    build: "build_nodes chunks (Map.empty, 0, 0) = Inr s'"
    and t: "t = (case s' of (nodes, root, m) \<Rightarrow>
          zero_Taxonomy\<lparr>filename := file1, Nodes := nodes, rootNode := root, maxTaxid := m\<rparr>)"
    by (cases "build_nodes chunks (Map.empty, 0, 0)")
      (auto simp: NewTaxonomy_def Let_def)
  from build have clean: "\<forall>ch\<in>set chunks. Err ch = None"
    and s': "s' = fold add_taxon (concat (map Data chunks)) (Map.empty, 0, 0)"
    by (simp_all add: build_nodes_Inr)
  from reader_clean [OF reader clean] obtain lines where
    "fs file1 = Some lines" "\<forall>l\<in>set lines. parses ?fn l"
    "concat (map Data chunks) = parsed_records ?fn lines"
    by auto
  with t s' show ?thesis by auto
qed

lemma NewTaxonomyWithRank_parses:
  assumes "1 \<le> c" and "1 \<le> p" and "1 \<le> r" and "fs file1 = Some lines"
    and "\<forall>l\<in>set lines. parses (parse_ranked_taxon (minInt c [p, r]) (c - 1) (p - 1) (r - 1)) l"
  shows "NewTaxonomyWithRank fs file1 c p r =
    (case add_ranked_taxa
            (parsed_records (parse_ranked_taxon (minInt c [p, r]) (c - 1) (p - 1) (r - 1)) lines)
            ((Map.empty, 0, 0), (Map.empty, [], Map.empty, {})) of
       Inl err \<Rightarrow> Inl (Failed err)
     | Inr ((nodes, root, m), (t2r, rks, r2id, rmap)) \<Rightarrow>
         Inr (zero_Taxonomy\<lparr>filename := file1, Nodes := nodes, rootNode := root,
               maxTaxid := m, taxid2rankid := t2r, ranks := rks, hasRanks := True,
               Ranks := rmap\<rparr>))"
proof -
  let ?fn = "parse_ranked_taxon (minInt c [p, r]) (c - 1) (p - 1) (r - 1)"
  from reader_parses [where fs = fs and b = 8 and n = 100, OF assms(4,5)] obtain chunks where
    reader: "NewBufferedReader fs file1 8 100 ?fn = Inr chunks"
    and clean: "\<forall>ch\<in>set chunks. Err ch = None"
    and recs: "concat (map Data chunks) = parsed_records ?fn lines"
    by auto
  have cols: "\<not> (c < 1 \<or> p < 1 \<or> r < 1)" using assms(1-3) by simp
  have "NewTaxonomyWithRank fs file1 c p r =
    (case build_ranked chunks ((Map.empty, 0, 0), (Map.empty, [], Map.empty, {})) of
       Inl err \<Rightarrow> Inl (Failed err)
     | Inr ((nodes, root, m), (t2r, rks, r2id, rmap)) \<Rightarrow>
         Inr (zero_Taxonomy\<lparr>filename := file1, Nodes := nodes, rootNode := root,
               maxTaxid := m, taxid2rankid := t2r, ranks := rks, hasRanks := True,
               Ranks := rmap\<rparr>))"
    using cols reader by (simp add: NewTaxonomyWithRank_def Let_def)
  then show ?thesis by (simp only: build_ranked_clean [OF clean] recs)
qed

lemma NewTaxonomyWithRank_Inr:
  assumes "NewTaxonomyWithRank fs file1 c p r = Inr t"
  shows "1 \<le> c \<and> 1 \<le> p \<and> 1 \<le> r
         \<and> (\<exists>lines. fs file1 = Some lines
              \<and> (\<forall>l\<in>set lines.
                    parses (parse_ranked_taxon (minInt c [p, r]) (c - 1) (p - 1) (r - 1)) l))"
proof -
  let ?fn = "parse_ranked_taxon (minInt c [p, r]) (c - 1) (p - 1) (r - 1)"
  let ?init = "((Map.empty, 0, 0), (Map.empty, [], Map.empty, {})) :: nodes_state \<times> ranks_state"
  from assms have cols: "\<not> (c < 1 \<or> p < 1 \<or> r < 1)"
    by (auto simp: NewTaxonomyWithRank_def split: if_splits)
  from assms cols obtain chunks where
    reader: "NewBufferedReader fs file1 8 100 ?fn = Inr chunks"
    by (cases "NewBufferedReader fs file1 8 100 ?fn")
      (auto simp: NewTaxonomyWithRank_def Let_def split: failure.splits)
  from assms cols reader obtain s' where "build_ranked chunks ?init = Inr s'"
    by (cases "build_ranked chunks ?init") (auto simp: NewTaxonomyWithRank_def Let_def)
  then have clean: "\<forall>ch\<in>set chunks. Err ch = None" by (rule build_ranked_Inr_clean)
  from reader_clean [OF reader clean] cols show ?thesis by auto
qed

text \<open>The store of a successful \<open>NewTaxonomyWithRank\<close>, in terms of the records of the file.\<close>

lemma NewTaxonomyWithRank_store:
  assumes "NewTaxonomyWithRank fs file1 c p r = Inr t"
  shows "\<exists>lines r2id. fs file1 = Some lines
           \<and> ranks_inv
                (parsed_records (parse_ranked_taxon (minInt c [p, r]) (c - 1) (p - 1) (r - 1)) lines)
                (taxid2rankid t, ranks t, r2id, Ranks t)
           \<and> hasRanks t
           \<and> maxTaxid t =
               Max (insert 0 (Taxid ` set
                 (parsed_records (parse_ranked_taxon (minInt c [p, r]) (c - 1) (p - 1) (r - 1))
                    lines)))"
proof -
  let ?fn = "parse_ranked_taxon (minInt c [p, r]) (c - 1) (p - 1) (r - 1)"
  let ?ns = "(Map.empty, 0, 0) :: nodes_state"
  let ?rs = "(Map.empty, [], Map.empty, {}) :: ranks_state"
  from NewTaxonomyWithRank_Inr [OF assms] obtain lines where
    cols: "1 \<le> c" "1 \<le> p" "1 \<le> r" and lines: "fs file1 = Some lines"
    and ok: "\<forall>l\<in>set lines. parses ?fn l"
    by auto
  let ?recs = "parsed_records ?fn lines"
  note result = NewTaxonomyWithRank_parses [where fs = fs, OF cols lines ok]
  from add_ranked_taxa_inv [OF ranks_inv_init, of ?recs ?ns]
  have a: "card (Rank ` set ?recs) \<le> 255 \<longrightarrow>
      (\<exists>rs'. add_ranked_taxa ?recs (?ns, ?rs) = Inr (fold add_taxon ?recs ?ns, rs')
         \<and> ranks_inv ?recs rs')"
    and b: "255 < card (Rank ` set ?recs) \<longrightarrow>
      add_ranked_taxa ?recs (?ns, ?rs) = Inl ErrTooManyRanks"
    by simp_all
  have "card (Rank ` set ?recs) \<le> 255"
  proof (rule ccontr)
    assume "\<not> card (Rank ` set ?recs) \<le> 255"
    with b have "add_ranked_taxa ?recs (?ns, ?rs) = Inl ErrTooManyRanks" by simp
    with result assms show False by simp
  qed
  with a obtain rs' where
    run: "add_ranked_taxa ?recs (?ns, ?rs) = Inr (fold add_taxon ?recs ?ns, rs')"
    and inv: "ranks_inv ?recs rs'"
    by blast
  obtain nodes root m where ns: "fold add_taxon ?recs ?ns = (nodes, root, m)"
    by (cases "fold add_taxon ?recs ?ns")
  obtain t2r rks r2id rmap where rs': "rs' = (t2r, rks, r2id, rmap)" by (cases rs')
  from result assms run ns rs' have t:
    "t = zero_Taxonomy\<lparr>filename := file1, Nodes := nodes, rootNode := root,
           maxTaxid := m, taxid2rankid := t2r, ranks := rks, hasRanks := True,
           Ranks := rmap\<rparr>"
    by simp
  have "m = Max (insert 0 (Taxid ` set ?recs))"
    using fold_add_taxon_max [of ?recs Map.empty 0 0] ns by simp
  with t inv rs' lines show ?thesis by auto
qed

lemmas load_eval =
  parse_eval parse_ranked_taxon_def parse_merged_def parse_deleted_def tab_line_def
  example_fs_def parsed_records_def last_target_def

subsection \<open>The example nodes file\<close>

lemma NewTaxonomyWithRank_example:
  "NewTaxonomyWithRank example_fs ''nodes.dmp'' 1 3 5 = Inr example_ranked"
  by (simp add: NewTaxonomyWithRank_def load_eval add_rank_def example_ranked_def
      zero_Taxonomy_def)

lemma example_lines:
  "example_fs ''nodes.dmp'' =
     Some [tab_line [''1'', ''1'', ''no rank''], tab_line [''2'', ''1'', ''genus''],
           tab_line [''3'', ''2'', ''species''], tab_line [''4'', ''2'', ''species'']]"
  by (simp add: example_fs_def)

lemma example_records:
  "parsed_records (parse_ranked_taxon (minInt 1 [3, 5]) (1 - 1) (3 - 1) (5 - 1))
     [tab_line [''1'', ''1'', ''no rank''], tab_line [''2'', ''1'', ''genus''],
      tab_line [''3'', ''2'', ''species''], tab_line [''4'', ''2'', ''species'']]
   = [\<lparr>Taxid = 1, Parent = 1, Rank = ''no rank''\<rparr>, \<lparr>Taxid = 2, Parent = 1, Rank = ''genus''\<rparr>,
      \<lparr>Taxid = 3, Parent = 2, Rank = ''species''\<rparr>, \<lparr>Taxid = 4, Parent = 2, Rank = ''species''\<rparr>]"
  by (simp add: load_eval)

subsection \<open>The file with 256 ranks\<close>

lemma Split_nonempty: "Split s sep \<noteq> []"
  by (induction s) (auto split: list.splits)

lemma Split_replicate:
  "c \<noteq> sep \<Longrightarrow> Split (replicate n c @ xs) sep =
     (replicate n c @ hd (Split xs sep)) # tl (Split xs sep)"
proof (induction n)
  case 0
  then show ?case using Split_nonempty [of xs sep] by (cases "Split xs sep") simp_all
next
  case (Suc n)
  then show ?case by simp
qed

lemma trim_runes_keep:
  assumes "\<not> isSpace a" and "\<not> two a b" and "\<And>c. \<not> three a b c"
  shows "trim_runes two three (a # b # s) = a # b # s"
  using assms by (cases s) simp_all

lemma TrimSpace_rank_line:
  "TrimSpace (rank_line i) =
     ''1'' @ [CHR 0x09] @ ''|'' @ [CHR 0x09] @ ''1'' @ [CHR 0x09] @ ''|'' @ [CHR 0x09]
       @ replicate (Suc i) (CHR ''r'') @ [CHR 0x09] @ ''|''"
  by (simp add: rank_line_def tab_line_def TrimSpace_def isSpace_def space2_def space3_def
      trim_runes_keep)

lemma parse_rank_line:
  "parse_ranked_taxon (minInt 1 [3, 5]) (1 - 1) (3 - 1) (5 - 1) (rank_line i)
     = Parsed \<lparr>Taxid = 1, Parent = 1, Rank = replicate (Suc i) (CHR ''r'')\<rparr>"
proof -
  have "Split (replicate i (CHR ''r'') @ [CHR 0x09, CHR ''|'']) (CHR 0x09)
      = [replicate i (CHR ''r''), ''|'']"
    by (simp add: Split_replicate)
  then show ?thesis
    by (simp add: parse_ranked_taxon_def TrimSpace_rank_line minInt.simps index_def Atoi_def)
qed

lemma parsed_records_map:
  "(\<And>x. fn (f x) = Parsed (g x)) \<Longrightarrow> parsed_records fn (map f xs) = map g xs"
  by (induction xs) (simp_all add: parsed_records_def)

lemma many_ranks_card:
  "card (Rank ` set (parsed_records
      (parse_ranked_taxon (minInt 1 [3, 5]) (1 - 1) (3 - 1) (5 - 1)) (map rank_line [0..<256])))
   = 256"
proof -
  let ?g = "\<lambda>i. \<lparr>Taxid = 1, Parent = 1, Rank = replicate (Suc i) (CHR ''r'')\<rparr>"
  have recs: "parsed_records (parse_ranked_taxon (minInt 1 [3, 5]) (1 - 1) (3 - 1) (5 - 1))
      (map rank_line [0..<256]) = map ?g [0..<256]"
    by (rule parsed_records_map) (rule parse_rank_line)
  have inj: "inj_on (\<lambda>i. replicate (Suc i) (CHR ''r'')) {0..<256}"
    by (rule inj_onI) (metis length_replicate nat.inject)
  have "Rank ` set (map ?g [0..<256]) = (\<lambda>i. replicate (Suc i) (CHR ''r'')) ` {0..<256}"
    by (simp add: image_image)
  then show ?thesis
    unfolding recs using card_image [OF inj] by simp
qed

section \<open>Properties of LCA\<close>

text \<open>
  C3. For every store and every taxid \<open>x\<close>, \<open>LCA\<close> of \<open>x\<close> with itself returns \<open>x\<close>
  (whether or not \<open>x\<close> is in the parent map: no lookup happens), and \<open>LCA\<close> with a zero
  argument on either side returns 0; the store is left as it was.
\<close>

theorem LCA_same_and_zero:
  "LCA t x x = Some (x, t) \<and> LCA t 0 x = Some (0, t) \<and> LCA t x 0 = Some (0, t)"
  by (simp add: LCA_def)

text \<open>
  C1, as stated, fails: on the store that \<open>NewTaxonomy\<close> builds from the one line
  \<open>5 | 9\<close>, where the parent 9 is absent from the parent map, \<open>LCA\<close> of 5 and 9 is 9 and
  \<open>LCA\<close> of 9 and 5 is 0.
\<close>

theorem LCA_symmetric_counterexample:
  "NewTaxonomy dangling_fs ''nodes.dmp'' 1 3 = Inr dangling_store
   \<and> map_option fst (LCA dangling_store 5 9) = Some 9
   \<and> map_option fst (LCA dangling_store 9 5) = Some 0"
  by (simp add: NewTaxonomy_dangling) (simp add: LCA_eval dangling_store_def zero_Taxonomy_def)

text \<open>
  C1, amended. On every well-formed store (every key of the parent map has a path to a
  self-loop, and the only self-loop is \<open>rootNode\<close>), whatever its cache holds, \<open>LCA\<close>
  returns for all taxids \<open>a\<close> and \<open>b\<close>, in both orders, and returns the same value; also
  when an argument is absent from the parent map or resolved through the merge map.
\<close>

theorem LCA_symmetric:
  assumes "well_formed t"
  shows "\<exists>v. map_option fst (LCA t a b) = Some v \<and> map_option fst (LCA t b a) = Some v"
proof (cases "a = 0 \<or> b = 0 \<or> a = b")
  case True
  then show ?thesis by (auto simp: LCA_def)
next
  case False
  then have nz: "a \<noteq> 0" "b \<noteq> 0" "a \<noteq> b" "b \<noteq> a" by auto
  have key: "pack2uint32 b a = pack2uint32 a b" by (rule pack2uint32_commute)
  show ?thesis
  proof (cases "if cacheLCA t then lcaCache t (pack2uint32 a b) else None")
    case (Some tmp)
    then have "LCA t a b = Some (tmp, t)" "LCA t b a = Some (tmp, t)"
      using nz by (auto simp: LCA_def key split: if_splits)
    then have "map_option fst (LCA t a b) = Some tmp" "map_option fst (LCA t b a) = Some tmp"
      by simp_all
    then show ?thesis by (intro exI [of _ tmp] conjI)
  next
    case None
    from lca_value_total_sym [OF assms, of a b] obtain v sa sb where
      "lca_walks t a b = Some (v, sa)" "lca_walks t b a = Some (v, sb)"
      by (auto simp: lca_value_def)
    with None nz have "map_option fst (LCA t a b) = Some v" "map_option fst (LCA t b a) = Some v"
      by (auto simp: LCA_def key Let_def split: if_splits)
    then show ?thesis by (intro exI [of _ v] conjI)
  qed
qed

theorem LCA_symmetric_witness:
  "well_formed example_tree
   \<and> map_option fst (LCA example_tree 99 6) = Some 3
   \<and> map_option fst (LCA example_tree 6 99) = Some 3"
proof -
  have "map_option fst (LCA example_tree 99 6) = Some 3"
    by (simp add: LCA_eval example_tree_def zero_Taxonomy_def)
  with LCA_symmetric [OF well_formed_example_tree, of 99 6]
  show ?thesis
    using well_formed_example_tree by auto
qed

text \<open>
  C2, as stated, fails for \<open>b = a\<close>: a taxid in neither map, paired with itself, is
  returned by the equality check before any lookup.
\<close>

theorem LCA_unresolvable_counterexample:
  "Nodes zero_Taxonomy 7 = None \<and> MergeNodes zero_Taxonomy 7 = None \<and> (7 :: u32) \<noteq> 0
   \<and> map_option fst (LCA zero_Taxonomy 7 7) = Some 7"
  by (simp add: LCA_def zero_Taxonomy_def)

text \<open>
  C2, amended. When \<open>a\<close> is a key of neither the parent map nor the merge map, \<open>LCA\<close> of
  \<open>a\<close> and \<open>b\<close> returns 0 for every \<open>b\<close> other than 0 and \<open>a\<close>, unless the cache is on
  and already holds a non-zero value for the pair.
\<close>

theorem LCA_unresolvable:
  assumes "Nodes t a = None" and "MergeNodes t a = None" and "b \<noteq> 0" and "b \<noteq> a"
    and "cacheLCA t \<Longrightarrow> lcaCache t (pack2uint32 a b) = None
           \<or> lcaCache t (pack2uint32 a b) = Some 0"
  shows "map_option fst (LCA t a b) = Some 0"
proof -
  have "resolve t a = None" using assms(1,2) by (simp add: resolve_def)
  then have "lca_walks t a b = Some (0, True)" by (simp add: lca_walks_def walkA_None)
  with assms(3-5) show ?thesis
    by (auto simp: LCA_def Let_def split: if_splits)
qed

theorem LCA_unresolvable_witness:
  "Nodes example_tree 98 = None \<and> MergeNodes example_tree 98 = None \<and> (6 :: u32) \<noteq> 0
   \<and> (6 :: u32) \<noteq> 98 \<and> \<not> cacheLCA example_tree
   \<and> map_option fst (LCA example_tree 98 6) = Some 0"
proof -
  have h: "Nodes example_tree 98 = None" "MergeNodes example_tree 98 = None"
    "(6 :: u32) \<noteq> 0" "(6 :: u32) \<noteq> 98" "\<not> cacheLCA example_tree"
    by (simp_all add: example_tree_def zero_Taxonomy_def)
  from LCA_unresolvable [OF h(1-4)] h show ?thesis by simp
qed

text \<open>
  C4, as stated, fails: on the store built from the line \<open>5 | 9\<close>, with the cache on,
  the call \<open>LCA 5 9\<close> stores 9 under the key of the pair, and \<open>LCA 9 5\<close> then returns 9
  from the cache; with the cache off it returns 0.
\<close>

theorem LCA_cache_counterexample:
  "NewTaxonomy dangling_fs ''nodes.dmp'' 1 3 = Inr dangling_store
   \<and> (case LCA_calls (CacheLCA dangling_store) [(5, 9)] of
        None \<Rightarrow> None | Some t' \<Rightarrow> map_option fst (LCA t' 9 5)) = Some 9
   \<and> map_option fst (LCA dangling_store 9 5) = Some 0"
  by (simp add: NewTaxonomy_dangling) (simp add: LCA_eval dangling_store_def zero_Taxonomy_def)

text \<open>
  C4, amended. On every well-formed store with the cache off and empty, every sequence
  of \<open>LCA\<close> calls after \<open>CacheLCA\<close> returns, and \<open>LCA\<close> of any pair then returns the
  value that it returns on the store with the cache off.
\<close>

theorem LCA_cache_transparent:
  assumes "well_formed t" and "\<not> cacheLCA t" and "lcaCache t = Map.empty"
  shows "\<exists>t' v. LCA_calls (CacheLCA t) queries = Some t'
           \<and> map_option fst (LCA t' a b) = Some v \<and> map_option fst (LCA t a b) = Some v"
proof -
  have cs: "cache_sound t" using assms(3) by (rule cache_sound_empty)
  have wf0: "well_formed (CacheLCA t)"
    using assms(1) by (simp add: well_formed_def CacheLCA_def)
  have cs0: "cache_sound (CacheLCA t)"
    by (rule cache_sound_empty) (simp add: CacheLCA_def assms(3))
  have r0: "resolve (CacheLCA t) = resolve t"
    by (rule ext) (auto simp: CacheLCA_def resolve_def split: option.splits)
  from LCA_calls_sound [OF wf0 cs0, of queries] obtain t' where
    t': "LCA_calls (CacheLCA t) queries = Some t'" "cache_sound t'"
      "rootNode t' = rootNode (CacheLCA t)" "resolve t' = resolve (CacheLCA t)"
    by blast
  have same: "lca_value t' a b = lca_value t a b"
    by (rule lca_value_cong) (simp_all add: t' r0, simp add: CacheLCA_def)
  show ?thesis
  proof (cases "a = 0 \<or> b = 0 \<or> a = b")
    case True
    then show ?thesis using t'(1) by (auto simp: LCA_def)
  next
    case False
    from lca_value_total_sym [OF assms(1), of a b] obtain v where
      v: "lca_value t a b = Some v" by blast
    have "map_option fst (LCA t' a b) = Some v"
      using False LCA_lca_value [OF _ _ _ t'(2), of a b v] v same by auto
    moreover have "map_option fst (LCA t a b) = Some v"
      using False LCA_lca_value [OF _ _ _ cs, of a b v] v by auto
    ultimately show ?thesis using t'(1) by blast
  qed
qed

theorem LCA_cache_transparent_witness:
  "well_formed example_tree \<and> \<not> cacheLCA example_tree \<and> lcaCache example_tree = Map.empty
   \<and> (case LCA_calls (CacheLCA example_tree) [(7, 5)] of
        None \<Rightarrow> None | Some t' \<Rightarrow> map_option fst (LCA t' 5 7)) = Some 2
   \<and> map_option fst (LCA example_tree 5 7) = Some 2"
proof -
  have h: "\<not> cacheLCA example_tree" "lcaCache example_tree = Map.empty"
    by (simp_all add: example_tree_def zero_Taxonomy_def)
  have v: "map_option fst (LCA example_tree 5 7) = Some 2"
    by (simp add: LCA_eval example_tree_def zero_Taxonomy_def)
  from LCA_cache_transparent [OF well_formed_example_tree h, of "[(7, 5)]" 5 7] v
  show ?thesis
    using well_formed_example_tree h by auto
qed

section \<open>Properties of the loaders\<close>

text \<open>
  C5. A line with fewer fields than the largest column index is not always skipped by
  \<open>NewTaxonomy\<close> and \<open>NewTaxonomyWithRank\<close>: their \<open>minColumns\<close> is the smallest column
  index (\<open>minInt\<close>), so the line \<open>5 |\<close>, with two fields, passes the length check for
  the columns 1 and 3 (and 5) and the parse function indexes \<open>items[2]\<close> out of range.
  \<open>LoadMergedNodes\<close>, whose \<open>minColumns\<close> is the largest column index, skips the same
  line.
\<close>

theorem short_line_panics:
  "NewTaxonomy example_fs ''short.dmp'' 1 3 = Inl (Panicked IndexOutOfRange)
   \<and> NewTaxonomyWithRank example_fs ''short.dmp'' 1 3 5 = Inl (Panicked IndexOutOfRange)
   \<and> LoadMergedNodes zero_Taxonomy example_fs ''short.dmp'' 1 3 =
       (None, zero_Taxonomy\<lparr>MergeNodes := Map.empty, hasMergeNodes := True\<rparr>)"
  by (simp add: NewTaxonomy_def NewTaxonomyWithRank_def LoadMergedNodes_def load_eval)

text \<open>
  C9. \<open>LoadMergedNodes\<close> and \<open>LoadDeletedNodes\<close> change the store only when they
  succeed: when either returns an error (an illegal column index, a file that does not
  open, a line that does not parse), the store is the one it was called on, with its
  \<open>MergeNodes\<close>, \<open>DelNodes\<close> and flags.
\<close>

theorem load_failure_keeps_store:
  "(fst (LoadMergedNodes t fs file1 oldColumn newColumn) \<noteq> None
      \<longrightarrow> snd (LoadMergedNodes t fs file1 oldColumn newColumn) = t)
   \<and> (fst (LoadDeletedNodes t fs file2 column) \<noteq> None
      \<longrightarrow> snd (LoadDeletedNodes t fs file2 column) = t)"
  using LoadMergedNodes_cases [of t fs file1 oldColumn newColumn]
    LoadDeletedNodes_cases [of t fs file2 column]
  by auto

theorem load_failure_keeps_store_witness:
  "fst (LoadMergedNodes example_tree example_fs ''broken.dmp'' 1 3)
     = Some (Failed (Errorf (NumError ''x'' ErrSyntax)))
   \<and> snd (LoadMergedNodes example_tree example_fs ''broken.dmp'' 1 3) = example_tree
   \<and> fst (LoadDeletedNodes example_tree example_fs ''delnodes.dmp'' 0)
     = Some (Failed ErrIllegalColumnIndex)
   \<and> snd (LoadDeletedNodes example_tree example_fs ''delnodes.dmp'' 0) = example_tree"
proof -
  have m: "fst (LoadMergedNodes example_tree example_fs ''broken.dmp'' 1 3)
      = Some (Failed (Errorf (NumError ''x'' ErrSyntax)))"
    by (simp add: LoadMergedNodes_def load_eval)
  have d: "fst (LoadDeletedNodes example_tree example_fs ''delnodes.dmp'' 0)
      = Some (Failed ErrIllegalColumnIndex)"
    by (simp add: LoadDeletedNodes_def)
  from load_failure_keeps_store [of example_tree example_fs "''broken.dmp''" 1 3
      "''delnodes.dmp''" 0] m d
  show ?thesis by simp
qed

text \<open>
  C10. A successful \<open>LoadMergedNodes\<close> replaces the merge map: after a second successful
  call the map is the one of the second file alone (each old id with its last target),
  and a key of the first file that the second does not list is gone. Likewise a second
  successful \<open>LoadDeletedNodes\<close> leaves exactly the ids of the second file.
\<close>

theorem load_replaces:
  "(LoadMergedNodes t fs file1 old1 new1 = (None, t1)
      \<and> LoadMergedNodes t1 fs file2 old2 new2 = (None, t2)
    \<longrightarrow> (\<exists>lines. fs file2 = Some lines
           \<and> MergeNodes t2 =
               last_target
                 (parsed_records
                    (parse_merged (if new2 > old2 then new2 else old2) (old2 - 1) (new2 - 1))
                    lines)))
   \<and> (LoadDeletedNodes s fs dfile1 column1 = (None, s1)
      \<and> LoadDeletedNodes s1 fs dfile2 column2 = (None, s2)
    \<longrightarrow> (\<exists>lines. fs dfile2 = Some lines
           \<and> DelNodes s2 = set (parsed_records (parse_deleted column2) lines)))"
  using LoadMergedNodes_cases [of t1 fs file2 old2 new2]
    LoadDeletedNodes_cases [of s1 fs dfile2 column2]
  by auto

theorem load_replaces_witness:
  "LoadMergedNodes example_tree example_fs ''merged.dmp'' 1 3
     = (None, example_tree\<lparr>MergeNodes := [10 \<mapsto> 5], hasMergeNodes := True\<rparr>)
   \<and> LoadMergedNodes (example_tree\<lparr>MergeNodes := [10 \<mapsto> 5], hasMergeNodes := True\<rparr>)
       example_fs ''merged2.dmp'' 1 3
     = (None, example_tree\<lparr>MergeNodes := [20 \<mapsto> 6], hasMergeNodes := True\<rparr>)
   \<and> MergeNodes (example_tree\<lparr>MergeNodes := [20 \<mapsto> 6], hasMergeNodes := True\<rparr>) 10 = None
   \<and> LoadDeletedNodes example_tree example_fs ''delnodes.dmp'' 1
     = (None, example_tree\<lparr>DelNodes := {40}, hasDelNodes := True\<rparr>)
   \<and> LoadDeletedNodes (example_tree\<lparr>DelNodes := {40}, hasDelNodes := True\<rparr>)
       example_fs ''delnodes2.dmp'' 1
     = (None, example_tree\<lparr>DelNodes := {41}, hasDelNodes := True\<rparr>)"
proof -
  let ?t1 = "example_tree\<lparr>MergeNodes := [10 \<mapsto> 5], hasMergeNodes := True\<rparr>"
  let ?t2 = "example_tree\<lparr>MergeNodes := [20 \<mapsto> 6], hasMergeNodes := True\<rparr>"
  let ?d1 = "example_tree\<lparr>DelNodes := {40}, hasDelNodes := True\<rparr>"
  let ?d2 = "example_tree\<lparr>DelNodes := {41}, hasDelNodes := True\<rparr>"
  have m1: "LoadMergedNodes example_tree example_fs ''merged.dmp'' 1 3 = (None, ?t1)"
    by (simp add: LoadMergedNodes_def load_eval)
  have m2: "LoadMergedNodes ?t1 example_fs ''merged2.dmp'' 1 3 = (None, ?t2)"
    by (simp add: LoadMergedNodes_def load_eval)
  have d1: "LoadDeletedNodes example_tree example_fs ''delnodes.dmp'' 1 = (None, ?d1)"
    by (simp add: LoadDeletedNodes_def load_eval)
  have d2: "LoadDeletedNodes ?d1 example_fs ''delnodes2.dmp'' 1 = (None, ?d2)"
    by (simp add: LoadDeletedNodes_def load_eval)
  have "MergeNodes ?t2 10 = None"
    using load_replaces [of example_tree example_fs "''merged.dmp''" 1 3 ?t1
        "''merged2.dmp''" 1 3 ?t2 example_tree "''delnodes.dmp''" 1 ?d1
        "''delnodes2.dmp''" 1 ?d2] m1 m2
    by (simp add: load_eval)
  with m1 m2 d1 d2 show ?thesis by simp
qed

text \<open>
  C6, as stated, fails: from the line \<open>5 | 9\<close> the parser reads the child 5 and the
  parent 9, and \<open>MaxTaxid\<close> of the store is 5, not 9.
\<close>

theorem MaxTaxid_counterexample:
  "NewTaxonomy dangling_fs ''nodes.dmp'' 1 3 = Inr dangling_store
   \<and> parsed_records (parse_taxon (minInt 1 [3]) (1 - 1) (3 - 1)) [dangling_line]
       = [\<lparr>Taxid = 5, Parent = 9\<rparr>]
   \<and> MaxTaxid dangling_store = 5
   \<and> MaxTaxid dangling_store \<noteq> Max {5, 9}"
  by (simp add: NewTaxonomy_dangling)
    (simp add: load_eval dangling_line_def MaxTaxid_def dangling_store_def)

text \<open>
  C6, amended. After a successful \<open>NewTaxonomy\<close> or \<open>NewTaxonomyWithRank\<close>, \<open>MaxTaxid\<close>
  returns the maximum of the child taxids of the records read from the file (0 when
  there is none); the parent values do not count.
\<close>

theorem MaxTaxid_children:
  "(NewTaxonomy fs file1 c1 p1 = Inr t1 \<longrightarrow>
      (\<exists>lines. fs file1 = Some lines
         \<and> MaxTaxid t1 =
             Max (insert 0 (Taxid ` set
               (parsed_records (parse_taxon (minInt c1 [p1]) (c1 - 1) (p1 - 1)) lines)))))
   \<and> (NewTaxonomyWithRank fs' file2 c2 p2 r2 = Inr t2 \<longrightarrow>
      (\<exists>lines. fs' file2 = Some lines
         \<and> MaxTaxid t2 =
             Max (insert 0 (Taxid ` set
               (parsed_records
                  (parse_ranked_taxon (minInt c2 [p2, r2]) (c2 - 1) (p2 - 1) (r2 - 1))
                  lines)))))"
proof (intro conjI impI)
  assume "NewTaxonomy fs file1 c1 p1 = Inr t1"
  from NewTaxonomy_Inr [OF this] obtain lines where
    lines: "fs file1 = Some lines"
    and t1: "t1 = (case fold add_taxon
                    (parsed_records (parse_taxon (minInt c1 [p1]) (c1 - 1) (p1 - 1)) lines)
                    (Map.empty, 0, 0) of
               (nodes, root, m) \<Rightarrow>
                 zero_Taxonomy\<lparr>filename := file1, Nodes := nodes, rootNode := root,
                   maxTaxid := m\<rparr>)"
    by blast
  let ?recs = "parsed_records (parse_taxon (minInt c1 [p1]) (c1 - 1) (p1 - 1)) lines"
  obtain nodes root m where f: "fold add_taxon ?recs (Map.empty, 0, 0) = (nodes, root, m)"
    by (cases "fold add_taxon ?recs (Map.empty, 0, 0)")
  have "m = Max (insert 0 (Taxid ` set ?recs))"
    using fold_add_taxon_max [of ?recs Map.empty 0 0] f by simp
  with t1 f lines
  show "\<exists>lines. fs file1 = Some lines
         \<and> MaxTaxid t1 =
             Max (insert 0 (Taxid ` set
               (parsed_records (parse_taxon (minInt c1 [p1]) (c1 - 1) (p1 - 1)) lines)))"
    by (auto simp: MaxTaxid_def)
next
  assume "NewTaxonomyWithRank fs' file2 c2 p2 r2 = Inr t2"
  from NewTaxonomyWithRank_store [OF this]
  show "\<exists>lines. fs' file2 = Some lines
         \<and> MaxTaxid t2 =
             Max (insert 0 (Taxid ` set
               (parsed_records
                  (parse_ranked_taxon (minInt c2 [p2, r2]) (c2 - 1) (p2 - 1) (r2 - 1))
                  lines)))"
    by (auto simp: MaxTaxid_def)
qed

theorem MaxTaxid_children_witness:
  "NewTaxonomy dangling_fs ''nodes.dmp'' 1 3 = Inr dangling_store
   \<and> MaxTaxid dangling_store = 5
   \<and> NewTaxonomyWithRank example_fs ''nodes.dmp'' 1 3 5 = Inr example_ranked
   \<and> MaxTaxid example_ranked = 4"
proof -
  note inst = MaxTaxid_children [of dangling_fs "''nodes.dmp''" 1 3 dangling_store
      example_fs "''nodes.dmp''" 1 3 5 example_ranked]
  from inst NewTaxonomy_dangling have "MaxTaxid dangling_store = 5"
    by (simp add: dangling_fs_def load_eval dangling_line_def)
  moreover from inst NewTaxonomyWithRank_example have "MaxTaxid example_ranked = 4"
    by (simp add: example_lines example_records [simplified])
  ultimately show ?thesis
    using NewTaxonomy_dangling NewTaxonomyWithRank_example by simp
qed

text \<open>
  C7, as stated, fails: \<open>NewTaxonomyWithRank\<close> does not succeed on every input with at
  most 255 distinct ranks. A file of two lines and two ranks whose second taxid is the
  token \<open>x\<close> fails with the error of \<open>strconv.Atoi\<close>; the example nodes file, with three
  ranks, fails with \<open>ErrIllegalColumnIndex\<close> for the child column 0; and a file that
  does not open fails with the error of the reader.
\<close>

theorem rank_limit_counterexample:
  "example_fs ''badnodes.dmp''
     = Some [tab_line [''1'', ''1'', ''no rank''], tab_line [''x'', ''1'', ''genus'']]
   \<and> NewTaxonomyWithRank example_fs ''badnodes.dmp'' 1 3 5
     = Inl (Failed (Errorf (NumError ''x'' ErrSyntax)))
   \<and> NewTaxonomyWithRank example_fs ''nodes.dmp'' 0 3 5 = Inl (Failed ErrIllegalColumnIndex)
   \<and> example_fs ''missing.dmp'' = None
   \<and> NewTaxonomyWithRank example_fs ''missing.dmp'' 1 3 5
     = Inl (Failed (Errorf (OpenError ''missing.dmp'')))"
  by (simp add: NewTaxonomyWithRank_def load_eval)

text \<open>
  C7, amended. With legal column indices, on a file that opens and whose lines all
  parse (each is skipped or gives a record), \<open>NewTaxonomyWithRank\<close> succeeds when the
  records carry at most 255 distinct rank strings, and then its rank table lists each of
  them once; it fails with \<open>ErrTooManyRanks\<close> when they carry more, that is when a 256th
  distinct rank is met.
\<close>

theorem rank_limit:
  assumes "1 \<le> c" and "1 \<le> p" and "1 \<le> r" and "fs file1 = Some lines"
    and "\<forall>l\<in>set lines. parses (parse_ranked_taxon (minInt c [p, r]) (c - 1) (p - 1) (r - 1)) l"
  shows "(card (Rank ` set
            (parsed_records (parse_ranked_taxon (minInt c [p, r]) (c - 1) (p - 1) (r - 1)) lines))
            \<le> 255 \<longrightarrow>
          (\<exists>t. NewTaxonomyWithRank fs file1 c p r = Inr t
             \<and> distinct (ranks t)
             \<and> set (ranks t) = Rank ` set
                 (parsed_records
                    (parse_ranked_taxon (minInt c [p, r]) (c - 1) (p - 1) (r - 1)) lines)
             \<and> Ranks t = set (ranks t)))
       \<and> (255 < card (Rank ` set
            (parsed_records (parse_ranked_taxon (minInt c [p, r]) (c - 1) (p - 1) (r - 1)) lines))
            \<longrightarrow> NewTaxonomyWithRank fs file1 c p r = Inl (Failed ErrTooManyRanks))"
proof -
  let ?fn = "parse_ranked_taxon (minInt c [p, r]) (c - 1) (p - 1) (r - 1)"
  let ?recs = "parsed_records ?fn lines"
  let ?ns = "(Map.empty, 0, 0) :: nodes_state"
  let ?rs = "(Map.empty, [], Map.empty, {}) :: ranks_state"
  note result = NewTaxonomyWithRank_parses [where fs = fs, OF assms]
  from add_ranked_taxa_inv [OF ranks_inv_init, of ?recs ?ns]
  have a: "card (Rank ` set ?recs) \<le> 255 \<longrightarrow>
      (\<exists>rs'. add_ranked_taxa ?recs (?ns, ?rs) = Inr (fold add_taxon ?recs ?ns, rs')
         \<and> ranks_inv ?recs rs')"
    and b: "255 < card (Rank ` set ?recs) \<longrightarrow>
      add_ranked_taxa ?recs (?ns, ?rs) = Inl ErrTooManyRanks"
    by simp_all
  show ?thesis
  proof (intro conjI impI)
    assume "255 < card (Rank ` set ?recs)"
    with b result show "NewTaxonomyWithRank fs file1 c p r = Inl (Failed ErrTooManyRanks)"
      by simp
  next
    assume "card (Rank ` set ?recs) \<le> 255"
    with a obtain rs' where
      run: "add_ranked_taxa ?recs (?ns, ?rs) = Inr (fold add_taxon ?recs ?ns, rs')"
      and inv: "ranks_inv ?recs rs'"
      by blast
    obtain nodes root m where ns: "fold add_taxon ?recs ?ns = (nodes, root, m)"
      by (cases "fold add_taxon ?recs ?ns")
    obtain t2r rks r2id rmap where rs': "rs' = (t2r, rks, r2id, rmap)" by (cases rs')
    from result run ns rs' have
      "NewTaxonomyWithRank fs file1 c p r =
         Inr (zero_Taxonomy\<lparr>filename := file1, Nodes := nodes, rootNode := root,
               maxTaxid := m, taxid2rankid := t2r, ranks := rks, hasRanks := True,
               Ranks := rmap\<rparr>)"
      by simp
    moreover from inv rs' have "distinct rks" "set rks = Rank ` set ?recs" "rmap = set rks"
      by (simp_all add: ranks_inv_def)
    ultimately show "\<exists>t. NewTaxonomyWithRank fs file1 c p r = Inr t
             \<and> distinct (ranks t) \<and> set (ranks t) = Rank ` set ?recs
             \<and> Ranks t = set (ranks t)"
      by simp
  qed
qed

theorem rank_limit_witness:
  "(1 :: int) \<le> 1 \<and> (1 :: int) \<le> 3 \<and> (1 :: int) \<le> 5
   \<and> example_fs ''nodes.dmp'' =
       Some [tab_line [''1'', ''1'', ''no rank''], tab_line [''2'', ''1'', ''genus''],
             tab_line [''3'', ''2'', ''species''], tab_line [''4'', ''2'', ''species'']]
   \<and> parses (parse_ranked_taxon (minInt 1 [3, 5]) (1 - 1) (3 - 1) (5 - 1))
       (tab_line [''1'', ''1'', ''no rank''])
   \<and> parses (parse_ranked_taxon (minInt 1 [3, 5]) (1 - 1) (3 - 1) (5 - 1))
       (tab_line [''2'', ''1'', ''genus''])
   \<and> parses (parse_ranked_taxon (minInt 1 [3, 5]) (1 - 1) (3 - 1) (5 - 1))
       (tab_line [''3'', ''2'', ''species''])
   \<and> parses (parse_ranked_taxon (minInt 1 [3, 5]) (1 - 1) (3 - 1) (5 - 1))
       (tab_line [''4'', ''2'', ''species''])
   \<and> NewTaxonomyWithRank example_fs ''nodes.dmp'' 1 3 5 = Inr example_ranked
   \<and> distinct (ranks example_ranked)
   \<and> set (ranks example_ranked) = {''no rank'', ''genus'', ''species''}
   \<and> Ranks example_ranked = set (ranks example_ranked)
   \<and> many_ranks_fs ''nodes.dmp'' = Some (map rank_line [0..<256])
   \<and> card (Rank ` set (parsed_records
         (parse_ranked_taxon (minInt 1 [3, 5]) (1 - 1) (3 - 1) (5 - 1))
         (map rank_line [0..<256]))) = 256
   \<and> NewTaxonomyWithRank many_ranks_fs ''nodes.dmp'' 1 3 5 = Inl (Failed ErrTooManyRanks)"
proof -
  have many: "many_ranks_fs ''nodes.dmp'' = Some (map rank_line [0..<256])"
    by (simp add: many_ranks_fs_def)
  have many_ok: "\<forall>l\<in>set (map rank_line [0..<256]).
      parses (parse_ranked_taxon (minInt 1 [3, 5]) (1 - 1) (3 - 1) (5 - 1)) l"
    by (auto simp: parses_def parse_rank_line [simplified] simp del: upt_Suc)
  have too_many: "NewTaxonomyWithRank many_ranks_fs ''nodes.dmp'' 1 3 5
      = Inl (Failed ErrTooManyRanks)"
    using rank_limit [where fs = many_ranks_fs and c = 1 and p = 3 and r = 5, OF _ _ _ many many_ok]
      many_ranks_card
    by simp
  let ?fn = "parse_ranked_taxon (minInt 1 [3, 5]) (1 - 1) (3 - 1) (5 - 1)"
  let ?lines = "[tab_line [''1'', ''1'', ''no rank''], tab_line [''2'', ''1'', ''genus''],
             tab_line [''3'', ''2'', ''species''], tab_line [''4'', ''2'', ''species'']]"
  have ok: "parses ?fn (tab_line [''1'', ''1'', ''no rank''])"
    "parses ?fn (tab_line [''2'', ''1'', ''genus''])"
    "parses ?fn (tab_line [''3'', ''2'', ''species''])"
    "parses ?fn (tab_line [''4'', ''2'', ''species''])"
    by (simp_all add: parses_def load_eval)
  then have all: "\<forall>l\<in>set ?lines. parses ?fn l" by simp
  have cols: "(1 :: int) \<le> 1" "(1 :: int) \<le> 3" "(1 :: int) \<le> 5" by simp_all
  have few: "card (Rank ` set (parsed_records ?fn ?lines)) \<le> 255"
    by (simp add: example_records example_records [simplified])
  from rank_limit [where fs = example_fs, OF cols example_lines all] few
  obtain t where t: "NewTaxonomyWithRank example_fs ''nodes.dmp'' 1 3 5 = Inr t"
    "distinct (ranks t)" "set (ranks t) = Rank ` set (parsed_records ?fn ?lines)"
    "Ranks t = set (ranks t)"
    by blast
  from t(1) NewTaxonomyWithRank_example have "t = example_ranked" by simp
  with t show ?thesis
    using ok cols example_lines NewTaxonomyWithRank_example many many_ranks_card too_many
    by (simp add: example_records example_records [simplified] insert_commute)
qed

text \<open>
  C8. \<open>Rank\<close> panics with \<open>ErrRankNotLoaded\<close> exactly on a store without ranks, which is
  what \<open>NewTaxonomy\<close> builds. On a store built by \<open>NewTaxonomyWithRank\<close> it never fails:
  it returns the rank of the last record of the taxid, and the empty string for a
  taxid that no record has, which are the taxids missing from the rank table.
\<close>

theorem Rank_behaviour:
  "(Taxonomy_Rank t x = Inl (Panicked (PanicValue ErrRankNotLoaded)) \<longleftrightarrow> \<not> hasRanks t)
   \<and> (NewTaxonomy fs file1 c1 p1 = Inr t1 \<longrightarrow> \<not> hasRanks t1)
   \<and> (NewTaxonomyWithRank fs' file2 c2 p2 r2 = Inr t2 \<longrightarrow>
        hasRanks t2
        \<and> (\<exists>lines. fs' file2 = Some lines
             \<and> Taxonomy_Rank t2 y =
                 Inr (case last_rank
                        (parsed_records
                           (parse_ranked_taxon (minInt c2 [p2, r2]) (c2 - 1) (p2 - 1) (r2 - 1))
                           lines) y of
                        Some rank \<Rightarrow> rank | None \<Rightarrow> [])
             \<and> (taxid2rankid t2 y = None \<longleftrightarrow>
                  y \<notin> Taxid ` set
                    (parsed_records
                       (parse_ranked_taxon (minInt c2 [p2, r2]) (c2 - 1) (p2 - 1) (r2 - 1))
                       lines))))"
proof (intro conjI impI)
  show "Taxonomy_Rank t x = Inl (Panicked (PanicValue ErrRankNotLoaded)) \<longleftrightarrow> \<not> hasRanks t"
    by (auto simp: Taxonomy_Rank_def index_def split: option.splits sum.splits)
next
  assume "NewTaxonomy fs file1 c1 p1 = Inr t1"
  from NewTaxonomy_Inr [OF this] obtain lines where
    t1: "t1 = (case fold add_taxon
                    (parsed_records (parse_taxon (minInt c1 [p1]) (c1 - 1) (p1 - 1)) lines)
                    (Map.empty, 0, 0) of
               (nodes, root, m) \<Rightarrow>
                 zero_Taxonomy\<lparr>filename := file1, Nodes := nodes, rootNode := root,
                   maxTaxid := m\<rparr>)"
    by blast
  obtain nodes root m where
    "fold add_taxon (parsed_records (parse_taxon (minInt c1 [p1]) (c1 - 1) (p1 - 1)) lines)
       (Map.empty, 0, 0) = (nodes, root, m)"
    by (cases "fold add_taxon
        (parsed_records (parse_taxon (minInt c1 [p1]) (c1 - 1) (p1 - 1)) lines)
        (Map.empty, 0, 0)")
  with t1 show "\<not> hasRanks t1" by (simp add: zero_Taxonomy_def)
next
  assume built: "NewTaxonomyWithRank fs' file2 c2 p2 r2 = Inr t2"
  from NewTaxonomyWithRank_store [OF built] show "hasRanks t2" by blast
next
  assume built: "NewTaxonomyWithRank fs' file2 c2 p2 r2 = Inr t2"
  let ?fn = "parse_ranked_taxon (minInt c2 [p2, r2]) (c2 - 1) (p2 - 1) (r2 - 1)"
  from NewTaxonomyWithRank_store [OF built] obtain lines r2id where
    lines: "fs' file2 = Some lines" and has: "hasRanks t2"
    and inv: "ranks_inv (parsed_records ?fn lines) (taxid2rankid t2, ranks t2, r2id, Ranks t2)"
    by blast
  let ?recs = "parsed_records ?fn lines"
  from inv have look: "map_option (\<lambda>w. ranks t2 ! unat w) (taxid2rankid t2 y) = last_rank ?recs y"
    and bound: "\<And>w. taxid2rankid t2 y = Some w \<Longrightarrow> unat w < length (ranks t2)"
    by (auto simp: ranks_inv_def)
  have dom: "last_rank ?recs y = None \<longleftrightarrow> y \<notin> Taxid ` set ?recs"
    by (auto simp: last_rank_def map_of_eq_None_iff image_image)
  have rank: "Taxonomy_Rank t2 y =
      Inr (case last_rank ?recs y of Some rank \<Rightarrow> rank | None \<Rightarrow> [])"
  proof (cases "taxid2rankid t2 y")
    case None
    with look has show ?thesis by (simp add: Taxonomy_Rank_def)
  next
    case (Some w)
    from bound [OF Some] have "nat (uint w) < length (ranks t2)" by simp
    then have "uint w < int (length (ranks t2))" by linarith
    then have "index (ranks t2) (uint w) = Inr (ranks t2 ! unat w)"
      by (simp add: index_def)
    with look [symmetric] has Some show ?thesis by (simp add: Taxonomy_Rank_def)
  qed
  have "taxid2rankid t2 y = None \<longleftrightarrow> y \<notin> Taxid ` set ?recs"
    using look dom by (cases "taxid2rankid t2 y") auto
  with lines rank
  have "fs' file2 = Some lines
          \<and> Taxonomy_Rank t2 y =
              Inr (case last_rank (parsed_records ?fn lines) y of
                     Some rank \<Rightarrow> rank | None \<Rightarrow> [])
          \<and> (taxid2rankid t2 y = None \<longleftrightarrow> y \<notin> Taxid ` set (parsed_records ?fn lines))"
    by (intro conjI)
  then
  show "\<exists>lines. fs' file2 = Some lines
          \<and> Taxonomy_Rank t2 y =
              Inr (case last_rank (parsed_records ?fn lines) y of
                     Some rank \<Rightarrow> rank | None \<Rightarrow> [])
          \<and> (taxid2rankid t2 y = None \<longleftrightarrow> y \<notin> Taxid ` set (parsed_records ?fn lines))"
    by (rule exI)
qed

theorem Rank_behaviour_witness:
  "NewTaxonomy dangling_fs ''nodes.dmp'' 1 3 = Inr dangling_store
   \<and> Taxonomy_Rank dangling_store 5 = Inl (Panicked (PanicValue ErrRankNotLoaded))
   \<and> NewTaxonomyWithRank example_fs ''nodes.dmp'' 1 3 5 = Inr example_ranked
   \<and> Taxonomy_Rank example_ranked 3 = Inr ''species''
   \<and> Taxonomy_Rank example_ranked 9 = Inr []"
proof -
  note a = Rank_behaviour [of dangling_store 5 dangling_fs "''nodes.dmp''" 1 3 dangling_store
      example_fs "''nodes.dmp''" 1 3 5 example_ranked 3]
  note b = Rank_behaviour [of dangling_store 5 dangling_fs "''nodes.dmp''" 1 3 dangling_store
      example_fs "''nodes.dmp''" 1 3 5 example_ranked 9]
  from a NewTaxonomy_dangling
  have "Taxonomy_Rank dangling_store 5 = Inl (Panicked (PanicValue ErrRankNotLoaded))"
    by simp
  moreover from a NewTaxonomyWithRank_example
  have "Taxonomy_Rank example_ranked 3 = Inr ''species''"
    by (simp add: example_lines example_records [simplified] last_rank_def example_ranked_def zero_Taxonomy_def)
  moreover from b NewTaxonomyWithRank_example
  have "Taxonomy_Rank example_ranked 9 = Inr []"
    by (simp add: example_lines example_records [simplified] last_rank_def example_ranked_def zero_Taxonomy_def)
  ultimately show ?thesis
    using NewTaxonomy_dangling NewTaxonomyWithRank_example by simp
qed

end
